theory Spec2Isabelle
  imports Main "HOL-Library.Word" "HOL-Library.Multiset"
begin

section \<open>The request dispatcher of ServiceManager.cc\<close>

text \<open>
  The development embeds \<^verbatim>\<open>src/ServiceManager.cc\<close>: the service registry
  (\<^verbatim>\<open>addService\<close>), admission (\<^verbatim>\<open>handleRpc\<close>), the completion scan
  (\<^verbatim>\<open>poll\<close>), the handoff to a worker (\<^verbatim>\<open>Worker::handoff\<close>), the
  worker thread's own transitions (\<^verbatim>\<open>workerMain\<close>, \<^verbatim>\<open>Worker::sendReply\<close>)
  and \<^verbatim>\<open>Worker::exit\<close>.

  Objects reached through pointers live in an explicit store: a \<^verbatim>\<open>Worker*\<close> is an
  index into the list \<open>workers\<close> (\<^verbatim>\<open>new Worker\<close> appends), a
  \<^verbatim>\<open>ServiceInfo*\<close> is the index of its slot in the array \<open>services\<close>.
  Calls that leave the dispatcher (\<^verbatim>\<open>sendReply\<close> on a request, fences, the atomic
  exchange, the futex wake, joining a thread) are recorded, in program order, in \<open>trace\<close>.
  \<^verbatim>\<open>LOG\<close> calls change nothing in the dispatcher and are left out; so is the return
  value of \<^verbatim>\<open>futexWake\<close>, which only decides whether a line is logged.
  A failed \<^verbatim>\<open>assert\<close> is the result \<open>Inl AssertionFailed\<close>; a dereference the
  source would make outside an object is \<open>Inl UndefinedBehaviour\<close>. The assertions
  that the caller is the dispatch thread are taken to hold: every operation below is one
  of the dispatch thread, but for the steps of \<open>workerMain\<close>.

  The counters of the source are C \<^verbatim>\<open>int\<close>s and are integers here. No operation
  takes one out of its range: \<open>requestsRunning\<close> is incremented only below
  \<open>maxThreads\<close> and decremented only for a worker it counts, and \<open>busyIndex\<close> is the
  length of \<open>busyThreads\<close>, which \<^verbatim>\<open>downCast<int>\<close> asserts to fit.
\<close>

subsection \<open>Data\<close>

datatype error = AssertionFailed | UndefinedBehaviour

text \<open>The values of the worker's state cell (\<^verbatim>\<open>Worker::POLLING\<close> ...).\<close>

datatype WorkerState = POLLING | WORKING | POSTPROCESSING | SLEEPING

datatype Status = STATUS_MESSAGE_TOO_SHORT | STATUS_SERVICE_NOT_AVAILABLE

text \<open>
  Modelled from the spec: the common request header \<^verbatim>\<open>RpcRequestCommon\<close> (its
  declaration is not among the sources). Section 6 of the specification gives two
  \<^verbatim>\<open>uint16\<close> fields, \<open>service\<close> and \<open>opcode\<close>.
\<close>

record RpcRequestCommon =
  service :: "16 word"
  opcode :: "16 word"

text \<open>
  Modelled from the spec: the size of that header, two \<^verbatim>\<open>uint16\<close> fields.
\<close>

definition sizeof_RpcRequestCommon :: nat where
  "sizeof_RpcRequestCommon = 4"

text \<open>
  A \<^verbatim>\<open>Transport::ServerRpc\<close>. \<open>rpcId\<close> is the identity of the object (its
  address). The request payload is kept as its total length and the header its first bytes
  decode to (meaningful only when the payload is long enough to hold a header).
\<close>

record ServerRpc =
  rpcId :: nat
  requestLength :: nat
  requestHeader :: RpcRequestCommon
  epochIsSet :: bool

text \<open>
  Modelled from the spec: \<^verbatim>\<open>Buffer::getStart<RpcRequestCommon>()\<close> (Buffer is not
  among the sources) yields no header (\<^verbatim>\<open>NULL\<close>) exactly when the payload is shorter
  than the header.
\<close>

definition getStart :: "ServerRpc \<Rightarrow> RpcRequestCommon option" where
  "getStart r =
     (if requestLength r < sizeof_RpcRequestCommon then None else Some (requestHeader r))"

text \<open>
  A value of type \<^verbatim>\<open>Transport::ServerRpc*\<close> as a worker holds it: \<^verbatim>\<open>NULL\<close>,
  the sentinel \<^verbatim>\<open>WORKER_EXIT\<close> (the address 1), or a request.
\<close>

datatype RpcPtr = NULL | WORKER_EXIT | Ptr ServerRpc

text \<open>
  Modelled from the spec: the class \<^verbatim>\<open>Worker\<close> (ServiceManager.h is not among the
  sources). Its fields are the ones ServiceManager.cc reads and writes: the service entry
  the worker is bound to, the request it holds, its position in \<open>busyThreads\<close>, the
  state cell and the exited flag.
\<close>

record Worker =
  serviceInfo :: "nat option"
  rpc :: RpcPtr
  busyIndex :: int
  state :: WorkerState
  exited :: bool

text \<open>
  Modelled from the spec: the constructor of \<^verbatim>\<open>Worker\<close> (ServiceManager.h is not
  among the sources). A new worker holds no request, is bound to no service, has
  \<open>busyIndex = -1\<close> as every idle worker, polls for work and has not exited.
\<close>

definition Worker_new :: Worker where
  "Worker_new = \<lparr>serviceInfo = None, rpc = NULL, busyIndex = - 1, state = POLLING,
     exited = False\<rparr>"

text \<open>
  Modelled from the spec: a \<^verbatim>\<open>Service\<close> as \<open>addService\<close> receives it (Service.h is
  not among the sources): the handler, known by a name, and the cap on the requests it
  runs at once, which the specification's \<open>addService(handler, tag, maxThreads)\<close> gives at
  registration.
\<close>

record Service =
  serviceName :: nat
  threadLimit :: int

text \<open>
  Modelled from the spec: the class \<^verbatim>\<open>ServiceInfo\<close> (ServiceManager.h is not among
  the sources), with the fields ServiceManager.cc uses. \<open>serviceHandler\<close> is the field
  the source calls \<open>service\<close>.
\<close>

record ServiceInfo =
  serviceHandler :: Service
  maxThreads :: int
  requestsRunning :: int
  waitingRpcs :: "ServerRpc list"

text \<open>
  Modelled from the spec: the constructor of \<^verbatim>\<open>ServiceInfo\<close> (ServiceManager.h is
  not among the sources). A new entry has the cap of its service, no request running and
  an empty queue.
\<close>

definition ServiceInfo_construct :: "Service \<Rightarrow> ServiceInfo" where
  "ServiceInfo_construct svc =
     \<lparr>serviceHandler = svc, maxThreads = threadLimit svc, requestsRunning = 0,
      waitingRpcs = []\<rparr>"

text \<open>What the dispatch thread does to the world outside the dispatcher, in order.\<close>

datatype Event =
    EvStoreRpc nat RpcPtr
  | EvFenceLeave
  | EvFenceEnter
  | EvExchange nat WorkerState WorkerState
  | EvFutexWake nat nat
  | EvPrepareErrorResponse nat Status
  | EvSendReply nat
  | EvJoin nat

record ServiceManager =
  services :: "ServiceInfo option list"
  busyThreads :: "nat list"
  idleThreads :: "nat list"
  serviceCount :: int
  testRpcs :: "ServerRpc list"
  workers :: "Worker list"
  trace :: "Event list"

text \<open>
  The constructor, lines 51-59. \<^verbatim>\<open>MAX_SERVICE\<close> is declared outside the sources
  and is a parameter \<open>M\<close> throughout; the array \<open>services\<close> has the slots \<open>0..M\<close>.
\<close>

definition ServiceManager_new :: "nat \<Rightarrow> ServiceManager" where
  "ServiceManager_new M =
     \<lparr>services = replicate (Suc M) None, busyThreads = [], idleThreads = [],
      serviceCount = 0, testRpcs = [], workers = [], trace = []\<rparr>"

definition emit :: "Event list \<Rightarrow> ServiceManager \<Rightarrow> ServiceManager" where
  "emit es s = s\<lparr>trace := trace s @ es\<rparr>"

definition updWorker :: "nat \<Rightarrow> (Worker \<Rightarrow> Worker) \<Rightarrow> ServiceManager \<Rightarrow> ServiceManager" where
  "updWorker w f s = s\<lparr>workers := (workers s)[w := f (workers s ! w)]\<rparr>"

definition updInfo :: "nat \<Rightarrow> (ServiceInfo \<Rightarrow> ServiceInfo) \<Rightarrow> ServiceManager \<Rightarrow> ServiceManager" where
  "updInfo t f s = s\<lparr>services := (services s)[t := map_option f (services s ! t)]\<rparr>"

subsection \<open>addService\<close>

text \<open>
  Lines 91-96. The source indexes \<open>services\<close> with \<open>type\<close> without a range check; a
  \<open>type\<close> above \<open>M\<close> is outside the array.
\<close>

definition addService :: "nat \<Rightarrow> ServiceManager \<Rightarrow> Service \<Rightarrow> nat \<Rightarrow> error + ServiceManager" where
  "addService M s svc type =
     (if M < type then Inl UndefinedBehaviour
      else if services s ! type \<noteq> None then Inl AssertionFailed
      else Inr (s\<lparr>services := (services s)[type := Some (ServiceInfo_construct svc)],
                  serviceCount := serviceCount s + 1\<rparr>))"

subsection \<open>Worker::handoff\<close>

text \<open>Lines 369-389, on the worker at address \<open>w\<close>.\<close>

definition handoff :: "nat \<Rightarrow> RpcPtr \<Rightarrow> ServiceManager \<Rightarrow> error + ServiceManager" where
  "handoff w newRpc s =
     (if length (workers s) \<le> w then Inl UndefinedBehaviour
      else if rpc (workers s ! w) \<noteq> NULL then Inl AssertionFailed
      else
        let s1 = emit [EvStoreRpc w newRpc] (updWorker w (\<lambda>k. k\<lparr>rpc := newRpc\<rparr>) s);
            s2 = emit [EvFenceLeave] s1;
            prevState = state (workers s2 ! w);
            s3 = emit [EvExchange w prevState WORKING] (updWorker w (\<lambda>k. k\<lparr>state := WORKING\<rparr>) s2)
        in if prevState = SLEEPING then Inr (emit [EvFutexWake w 1] s3) else Inr s3)"

subsection \<open>handleRpc\<close>

text \<open>Lines 118-137: the request names no service that is registered.\<close>

definition rejectRpc :: "bool \<Rightarrow> ServiceManager \<Rightarrow> ServerRpc \<Rightarrow> RpcRequestCommon option \<Rightarrow> ServiceManager" where
  "rejectRpc testing s r header =
     (if testing \<and> serviceCount s = 0 then s\<lparr>testRpcs := testRpcs s @ [r]\<rparr>
      else
        (case header of
           None \<Rightarrow>
             emit [EvSendReply (rpcId r)]
               (emit [EvPrepareErrorResponse (rpcId r) STATUS_MESSAGE_TOO_SHORT] s)
         | Some h \<Rightarrow>
             emit [EvSendReply (rpcId r)]
               (emit [EvPrepareErrorResponse (rpcId r) STATUS_SERVICE_NOT_AVAILABLE] s)))"

text \<open>
  Lines 157-171: the request runs now, on the last idle worker or on a new one.
  \<open>t\<close> is the slot of the service.
\<close>

definition startRpc :: "ServiceManager \<Rightarrow> ServerRpc \<Rightarrow> nat \<Rightarrow> error + ServiceManager" where
  "startRpc s r t =
     (let s1 = updInfo t (\<lambda>i. i\<lparr>requestsRunning := requestsRunning i + 1\<rparr>) s;
          (worker, s2) =
            (if idleThreads s1 = [] then
               (length (workers s1), s1\<lparr>workers := workers s1 @ [Worker_new]\<rparr>)
             else (last (idleThreads s1), s1\<lparr>idleThreads := butlast (idleThreads s1)\<rparr>));
          s3 = updWorker worker (\<lambda>k. k\<lparr>serviceInfo := Some t\<rparr>) s2
      in case handoff worker (Ptr r) s3 of
           Inl e \<Rightarrow> Inl e
         | Inr s4 \<Rightarrow>
             Inr ((updWorker worker (\<lambda>k. k\<lparr>busyIndex := int (length (busyThreads s4))\<rparr>) s4)
                    \<lparr>busyThreads := busyThreads s4 @ [worker]\<rparr>))"

text \<open>
  Lines 108-172. \<open>testing\<close> is the compile-time flag \<^verbatim>\<open>TESTING\<close>.
\<close>

definition handleRpc :: "bool \<Rightarrow> nat \<Rightarrow> ServiceManager \<Rightarrow> ServerRpc \<Rightarrow> error + ServiceManager" where
  "handleRpc testing M s r =
     (if \<not> epochIsSet r then Inl AssertionFailed
      else
        (case getStart r of
           None \<Rightarrow> Inr (rejectRpc testing s r None)
         | Some h \<Rightarrow>
             (let t = unat (service h) in
              if M < t then Inr (rejectRpc testing s r (Some h))
              else
                (case services s ! t of
                   None \<Rightarrow> Inr (rejectRpc testing s r (Some h))
                 | Some info \<Rightarrow>
                     if maxThreads info \<le> requestsRunning info then
                       Inr (updInfo t (\<lambda>i. i\<lparr>waitingRpcs := waitingRpcs i @ [r]\<rparr>) s)
                     else startRpc s r t))))"

subsection \<open>poll\<close>

text \<open>Lines 208-211: answer the request the worker still holds.\<close>

definition replyIfPending :: "nat \<Rightarrow> ServiceManager \<Rightarrow> error + ServiceManager" where
  "replyIfPending w s =
     (case rpc (workers s ! w) of
        NULL \<Rightarrow> Inr s
      | WORKER_EXIT \<Rightarrow> Inl UndefinedBehaviour
      | Ptr r \<Rightarrow> Inr (updWorker w (\<lambda>k. k\<lparr>rpc := NULL\<rparr>) (emit [EvSendReply (rpcId r)] s)))"

text \<open>Lines 217-218: the head of the service's queue goes to the same worker.\<close>

definition startNext :: "nat \<Rightarrow> nat \<Rightarrow> ServiceInfo \<Rightarrow> ServiceManager \<Rightarrow> error + ServiceManager" where
  "startNext w t info s =
     (case handoff w (Ptr (hd (waitingRpcs info))) s of
        Inl e \<Rightarrow> Inl e
      | Inr s1 \<Rightarrow> Inr (updInfo t (\<lambda>i. i\<lparr>waitingRpcs := tl (waitingRpcs i)\<rparr>) s1))"

text \<open>Lines 222-230: the worker leaves \<open>busyThreads\<close> and becomes idle.\<close>

definition retire :: "nat \<Rightarrow> nat \<Rightarrow> ServiceManager \<Rightarrow> ServiceManager" where
  "retire w t s =
     (let bi = busyIndex (workers s ! w);
          s1 =
            (if w \<noteq> last (busyThreads s) then
               let b1 = s\<lparr>busyThreads := (busyThreads s)[nat bi := last (busyThreads s)]\<rparr>
               in updWorker (busyThreads b1 ! nat bi) (\<lambda>k. k\<lparr>busyIndex := bi\<rparr>) b1
             else s);
          s2 = s1\<lparr>busyThreads := butlast (busyThreads s1)\<rparr>;
          s3 = updWorker w (\<lambda>k. k\<lparr>busyIndex := - 1\<rparr>) s2;
          s4 = s3\<lparr>idleThreads := idleThreads s3 @ [w]\<rparr>
      in updInfo t (\<lambda>i. i\<lparr>requestsRunning := requestsRunning i - 1\<rparr>) s4)"

text \<open>Lines 198-232: the body of the loop, for the index \<open>i\<close>.\<close>

definition pollBody :: "nat \<Rightarrow> ServiceManager \<Rightarrow> error + ServiceManager" where
  "pollBody i s =
     (if length (busyThreads s) \<le> i \<or> length (workers s) \<le> busyThreads s ! i
      then Inl UndefinedBehaviour
      else
        let w = busyThreads s ! i in
        if busyIndex (workers s ! w) \<noteq> int i then Inl AssertionFailed
        else
          let st = state (workers s ! w) in
          if st = WORKING then Inr s
          else
            (case replyIfPending w (emit [EvFenceEnter] s) of
               Inl e \<Rightarrow> Inl e
             | Inr s1 \<Rightarrow>
                 if st = POSTPROCESSING then Inr s1
                 else
                   (case serviceInfo (workers s1 ! w) of
                      None \<Rightarrow> Inl UndefinedBehaviour
                    | Some t \<Rightarrow>
                        if length (services s1) \<le> t then Inl UndefinedBehaviour
                        else
                          (case services s1 ! t of
                             None \<Rightarrow> Inl UndefinedBehaviour
                           | Some info \<Rightarrow>
                               if waitingRpcs info \<noteq> [] then startNext w t info s1
                               else Inr (retire w t s1)))))"

text \<open>
  Lines 197-233: the loop runs \<open>i\<close> from the last index down to 0; \<open>pollFrom n\<close> is
  the loop with \<open>n\<close> indices still to visit.
\<close>

fun pollFrom :: "nat \<Rightarrow> ServiceManager \<Rightarrow> error + ServiceManager" where
  "pollFrom 0 s = Inr s"
| "pollFrom (Suc i) s =
     (case pollBody i s of Inl e \<Rightarrow> Inl e | Inr s1 \<Rightarrow> pollFrom i s1)"

definition poll :: "ServiceManager \<Rightarrow> error + ServiceManager" where
  "poll s = pollFrom (length (busyThreads s)) s"

definition idle :: "ServiceManager \<Rightarrow> bool" where
  "idle s = (busyThreads s = [])"

subsection \<open>The worker thread\<close>

text \<open>Lines 396-401, called by a handler on the worker thread.\<close>

definition Worker_sendReply :: "Worker \<Rightarrow> Worker" where
  "Worker_sendReply k = k\<lparr>state := POSTPROCESSING\<rparr>"

text \<open>
  Lines 273-327. The thread runs the handler from the moment it sees \<open>WORKING\<close> (with
  a request other than the exit sentinel) until it stores \<open>POLLING\<close>. What it does to
  the fields the dispatch thread reads is one of three actions: the handler calls
  \<open>sendReply\<close>; the handler returns (line 320); or, while waiting for work, the
  compare-and-exchange of line 293 moves the cell from \<open>POLLING\<close> to \<open>SLEEPING\<close>.
  An action the thread cannot take in its present state leaves the worker as it is.
\<close>

definition inHandler :: "Worker \<Rightarrow> bool" where
  "inHandler k =
     ((state k = WORKING \<or> state k = POSTPROCESSING) \<and> rpc k \<noteq> WORKER_EXIT \<and> \<not> exited k)"

datatype WorkerAction = CallSendReply | HandlerReturns | GoToSleep

definition workerMain_step :: "WorkerAction \<Rightarrow> Worker \<Rightarrow> Worker" where
  "workerMain_step a k =
     (case a of
        CallSendReply \<Rightarrow> if inHandler k then Worker_sendReply k else k
      | HandlerReturns \<Rightarrow> if inHandler k then k\<lparr>state := POLLING\<rparr> else k
      | GoToSleep \<Rightarrow> if state k = POLLING then k\<lparr>state := SLEEPING\<rparr> else k)"

subsection \<open>Sequences of operations\<close>

text \<open>
  The dispatch thread calls \<open>handleRpc\<close> and \<open>poll\<close>; between two such calls the
  worker threads take steps of their own. A worker thread writes nothing but its own state
  cell, and one call of the dispatch thread reads the cell of a worker once (and exchanges
  it in a handoff that follows at once), so a step a worker takes while a call runs has the
  effect of the same step taken just before or just after the call. A worker created in
  a call is taken not to have gone to sleep before the handoff that follows its creation:
  its poll budget has not run out.
\<close>

datatype Op = HandleRpc ServerRpc | Poll | WorkerDoes nat WorkerAction

fun step :: "bool \<Rightarrow> nat \<Rightarrow> ServiceManager \<Rightarrow> Op \<Rightarrow> error + ServiceManager" where
  "step testing M s (HandleRpc r) = handleRpc testing M s r"
| "step testing M s Poll = poll s"
| "step testing M s (WorkerDoes w a) =
     Inr (if w < length (workers s) then updWorker w (workerMain_step a) s else s)"

fun run :: "bool \<Rightarrow> nat \<Rightarrow> ServiceManager \<Rightarrow> Op list \<Rightarrow> error + ServiceManager" where
  "run testing M s [] = Inr s"
| "run testing M s (x # xs) =
     (case step testing M s x of Inl e \<Rightarrow> Inl e | Inr s1 \<Rightarrow> run testing M s1 xs)"

text \<open>Start-up: a new dispatcher and the registrations, in order.\<close>

fun addServices :: "nat \<Rightarrow> ServiceManager \<Rightarrow> (Service \<times> nat) list \<Rightarrow> error + ServiceManager" where
  "addServices M s [] = Inr s"
| "addServices M s ((svc, type) # regs) =
     (case addService M s svc type of Inl e \<Rightarrow> Inl e | Inr s1 \<Rightarrow> addServices M s1 regs)"

subsection \<open>Worker::exit\<close>




subsection \<open>Invariants of the dispatcher\<close>

definition boundTo :: "ServiceManager \<Rightarrow> nat \<Rightarrow> nat list" where
  "boundTo s t = filter (\<lambda>w. serviceInfo (workers s ! w) = Some t) (busyThreads s)"

definition indexOk :: "ServiceManager \<Rightarrow> bool" where
  "indexOk s \<longleftrightarrow>
     (\<forall>i<length (busyThreads s). busyThreads s ! i < length (workers s) \<and>
         busyIndex (workers s ! (busyThreads s ! i)) = int i) \<and>
     (\<forall>w<length (workers s). w \<notin> set (busyThreads s) \<longrightarrow> busyIndex (workers s ! w) = - 1) \<and>
     (\<forall>w\<in>set (idleThreads s). w < length (workers s) \<and> w \<notin> set (busyThreads s)) \<and>
     distinct (idleThreads s)"

definition holdsOk :: "ServiceManager \<Rightarrow> bool" where
  "holdsOk s \<longleftrightarrow>
     (\<forall>w<length (workers s). w \<notin> set (busyThreads s) \<longrightarrow> rpc (workers s ! w) = NULL) \<and>
     (\<forall>w<length (workers s). w \<in> set (busyThreads s) \<longrightarrow> rpc (workers s ! w) \<noteq> WORKER_EXIT)"

definition countOk :: "nat \<Rightarrow> ServiceManager \<Rightarrow> bool" where
  "countOk M s \<longleftrightarrow>
     (\<forall>w\<in>set (busyThreads s). \<exists>t\<le>M. serviceInfo (workers s ! w) = Some t \<and> services s ! t \<noteq> None) \<and>
     (\<forall>t\<le>M. \<forall>info. services s ! t = Some info \<longrightarrow>
        requestsRunning info \<le> maxThreads info \<and>
        requestsRunning info = int (length (boundTo s t)) \<and>
        (waitingRpcs info \<noteq> [] \<longrightarrow> requestsRunning info = maxThreads info))"

definition queueOk :: "nat \<Rightarrow> ServiceManager \<Rightarrow> bool" where
  "queueOk M s \<longleftrightarrow>
     (\<forall>t\<le>M. \<forall>info. services s ! t = Some info \<longrightarrow>
        (\<forall>r\<in>set (waitingRpcs info). getStart r \<noteq> None \<and> unat (service (requestHeader r)) = t))"

definition mgr_inv :: "nat \<Rightarrow> ServiceManager \<Rightarrow> bool" where
  "mgr_inv M s \<longleftrightarrow>
     length (services s) = Suc M \<and> indexOk s \<and> holdsOk s \<and> countOk M s \<and> queueOk M s"

subsection \<open>What the trace and the state say about requests\<close>

text \<open>The requests answered so far, and the requests handed to workers so far, in order.\<close>

fun repliedIds :: "Event list \<Rightarrow> nat list" where
  "repliedIds [] = []"
| "repliedIds (EvSendReply i # es) = i # repliedIds es"
| "repliedIds (e # es) = repliedIds es"

fun handedOff :: "Event list \<Rightarrow> ServerRpc list" where
  "handedOff [] = []"
| "handedOff (EvStoreRpc w (Ptr r) # es) = r # handedOff es"
| "handedOff (e # es) = handedOff es"

text \<open>The requests the dispatcher still owes an answer: held by a worker, waiting in a
  queue, or parked in \<open>testRpcs\<close>.\<close>

definition heldBy :: "Worker \<Rightarrow> ServerRpc list" where
  "heldBy k = (case rpc k of Ptr r \<Rightarrow> [r] | _ \<Rightarrow> [])"

definition queueOf :: "ServiceInfo option \<Rightarrow> ServerRpc list" where
  "queueOf x = (case x of None \<Rightarrow> [] | Some i \<Rightarrow> waitingRpcs i)"

definition pending :: "ServiceManager \<Rightarrow> ServerRpc list" where
  "pending s = concat (map heldBy (workers s)) @ concat (map queueOf (services s)) @ testRpcs s"

text \<open>The requests a sequence of operations submits, and those of them meant for slot \<open>t\<close>.\<close>

fun submitted :: "Op list \<Rightarrow> ServerRpc list" where
  "submitted [] = []"
| "submitted (HandleRpc r # xs) = r # submitted xs"
| "submitted (x # xs) = submitted xs"

definition forService :: "nat \<Rightarrow> ServerRpc list \<Rightarrow> ServerRpc list" where
  "forService t rs =
     filter (\<lambda>r. getStart r \<noteq> None \<and> unat (service (requestHeader r)) = t) rs"

text \<open>Every submitted request is owed an answer or has been answered: the two multisets
  of request identities that the conservation law adds up.\<close>

definition accounted :: "ServiceManager \<Rightarrow> nat multiset" where
  "accounted s = image_mset rpcId (mset (pending s)) + mset (repliedIds (trace s))"

text \<open>The requests for slot \<open>t\<close> in the order they reach workers: those handed off so
  far, then those still waiting in the slot's queue.\<close>

definition served :: "nat \<Rightarrow> ServiceManager \<Rightarrow> ServerRpc list" where
  "served t s = forService t (handedOff (trace s)) @ queueOf (services s ! t)"

definition registered :: "ServiceManager \<Rightarrow> bool list" where
  "registered s = map (\<lambda>x. x \<noteq> None) (services s)"

text \<open>What one \<open>poll\<close> owes at a worker of \<open>busyThreads\<close>: the identity of the
  request the worker holds, unless the worker is still \<open>WORKING\<close>.\<close>

definition due :: "ServiceManager \<Rightarrow> nat \<Rightarrow> nat list" where
  "due s w =
     (if state (workers s ! w) = WORKING then [] else map rpcId (heldBy (workers s ! w)))"

text \<open>The rounds of a wait loop, laid out as one sequence of operations: what happens before
  each call of \<open>poll\<close>, then the call.\<close>

definition pollRounds :: "Op list list \<Rightarrow> Op list" where
  "pollRounds sched = concat (map (\<lambda>ops. ops @ [Poll]) sched)"


subsection \<open>Concrete dispatchers and requests\<close>

definition demoRpc :: "nat \<Rightarrow> nat \<Rightarrow> 16 word \<Rightarrow> ServerRpc" where
  "demoRpc i n t = \<lparr>rpcId = i, requestLength = n, requestHeader = \<lparr>service = t, opcode = 7\<rparr>, epochIsSet = True\<rparr>"

definition sleeper :: ServiceManager where
  "sleeper = (ServiceManager_new 2)\<lparr>idleThreads := [0], workers := [Worker_new\<lparr>state := SLEEPING\<rparr>]\<rparr>"

definition demoService :: "int \<Rightarrow> Service" where
  "demoService cap = \<lparr>serviceName = 0, threadLimit = cap\<rparr>"

definition demoStart :: ServiceManager where
  "demoStart =
     \<lparr>services = [None, Some (ServiceInfo_construct (demoService 1)), None],
      busyThreads = [], idleThreads = [], serviceCount = 1, testRpcs = [], workers = [],
      trace = []\<rparr>"

definition demoOps :: "Op list" where
  "demoOps = [HandleRpc (demoRpc 10 8 1), HandleRpc (demoRpc 11 8 1),
     WorkerDoes 0 HandlerReturns, Poll]"

definition demoMid :: ServiceManager where
  "demoMid =
     \<lparr>services = [None, Some \<lparr>serviceHandler = demoService 1, maxThreads = 1,
         requestsRunning = 1, waitingRpcs = []\<rparr>, None],
      busyThreads = [0], idleThreads = [], serviceCount = 1, testRpcs = [],
      workers = [\<lparr>serviceInfo = Some 1, rpc = Ptr (demoRpc 11 8 1), busyIndex = 0,
         state = WORKING, exited = False\<rparr>],
      trace = [EvStoreRpc 0 (Ptr (demoRpc 10 8 1)), EvFenceLeave, EvExchange 0 POLLING WORKING,
         EvFenceEnter, EvSendReply 10,
         EvStoreRpc 0 (Ptr (demoRpc 11 8 1)), EvFenceLeave, EvExchange 0 POLLING WORKING]\<rparr>"

definition demoBusy :: ServiceManager where
  "demoBusy =
     \<lparr>services = [None, Some \<lparr>serviceHandler = demoService 1, maxThreads = 1,
         requestsRunning = 1, waitingRpcs = [demoRpc 11 8 1]\<rparr>, None],
      busyThreads = [0], idleThreads = [], serviceCount = 1, testRpcs = [],
      workers = [\<lparr>serviceInfo = Some 1, rpc = Ptr (demoRpc 10 8 1), busyIndex = 0,
         state = POLLING, exited = False\<rparr>],
      trace = [EvStoreRpc 0 (Ptr (demoRpc 10 8 1)), EvFenceLeave, EvExchange 0 POLLING WORKING]\<rparr>"

definition demoTwo :: ServiceManager where
  "demoTwo =
     \<lparr>services = [None, Some \<lparr>serviceHandler = demoService 2, maxThreads = 2,
         requestsRunning = 2, waitingRpcs = []\<rparr>, None],
      busyThreads = [0, 1], idleThreads = [], serviceCount = 1, testRpcs = [],
      workers = [\<lparr>serviceInfo = Some 1, rpc = Ptr (demoRpc 20 8 1), busyIndex = 0,
         state = POLLING, exited = False\<rparr>,
        \<lparr>serviceInfo = Some 1, rpc = Ptr (demoRpc 21 8 1), busyIndex = 1,
         state = WORKING, exited = False\<rparr>],
      trace = []\<rparr>"

definition demoIdle :: ServiceManager where
  "demoIdle =
     \<lparr>services = [None, Some \<lparr>serviceHandler = demoService 1, maxThreads = 1,
         requestsRunning = 0, waitingRpcs = []\<rparr>, None],
      busyThreads = [], idleThreads = [0], serviceCount = 1, testRpcs = [],
      workers = [\<lparr>serviceInfo = Some 1, rpc = NULL, busyIndex = - 1,
         state = SLEEPING, exited = False\<rparr>],
      trace = []\<rparr>"


section \<open>Basic facts\<close>

lemma emit_fields [simp]:
  "services (emit es s) = services s"
  "busyThreads (emit es s) = busyThreads s"
  "idleThreads (emit es s) = idleThreads s"
  "serviceCount (emit es s) = serviceCount s"
  "testRpcs (emit es s) = testRpcs s"
  "workers (emit es s) = workers s"
  "trace (emit es s) = trace s @ es"
  by (simp_all add: emit_def)

lemma updWorker_fields [simp]:
  "services (updWorker w f s) = services s"
  "busyThreads (updWorker w f s) = busyThreads s"
  "idleThreads (updWorker w f s) = idleThreads s"
  "serviceCount (updWorker w f s) = serviceCount s"
  "testRpcs (updWorker w f s) = testRpcs s"
  "workers (updWorker w f s) = (workers s)[w := f (workers s ! w)]"
  "trace (updWorker w f s) = trace s"
  by (simp_all add: updWorker_def)

lemma updInfo_fields [simp]:
  "services (updInfo t f s) = (services s)[t := map_option f (services s ! t)]"
  "busyThreads (updInfo t f s) = busyThreads s"
  "idleThreads (updInfo t f s) = idleThreads s"
  "serviceCount (updInfo t f s) = serviceCount s"
  "testRpcs (updInfo t f s) = testRpcs s"
  "workers (updInfo t f s) = workers s"
  "trace (updInfo t f s) = trace s"
  by (simp_all add: updInfo_def)

lemma handoff_eq:
  assumes "w < length (workers s)" "rpc (workers s ! w) = NULL"
  shows "handoff w p s =
    Inr (s\<lparr>workers := (workers s)[w := (workers s ! w)\<lparr>rpc := p, state := WORKING\<rparr>],
          trace := trace s @ [EvStoreRpc w p, EvFenceLeave, EvExchange w (state (workers s ! w)) WORKING]
             @ (if state (workers s ! w) = SLEEPING then [EvFutexWake w 1] else [])\<rparr>)"
  using assms by (simp add: handoff_def emit_def updWorker_def Let_def)

lemma addService_eq:
  assumes "type \<le> M"
  shows "addService M s svc type =
     (if services s ! type \<noteq> None then Inl AssertionFailed
      else Inr (s\<lparr>services := (services s)[type := Some (ServiceInfo_construct svc)],
                  serviceCount := serviceCount s + 1\<rparr>))"
  using assms by (simp add: addService_def)

lemma startRpc_new:
  assumes "idleThreads s = []"
  shows "startRpc s r t =
     Inr (s\<lparr>services := (services s)[t := map_option (\<lambda>i. i\<lparr>requestsRunning := requestsRunning i + 1\<rparr>) (services s ! t)],
           trace := trace s @ [EvStoreRpc (length (workers s)) (Ptr r), EvFenceLeave,
              EvExchange (length (workers s)) POLLING WORKING],
           workers := workers s @ [\<lparr>serviceInfo = Some t, rpc = Ptr r,
              busyIndex = int (length (busyThreads s)), state = WORKING, exited = False\<rparr>],
           busyThreads := busyThreads s @ [length (workers s)]\<rparr>)"
  using assms
  by (simp add: startRpc_def handoff_eq Worker_new_def updWorker_def updInfo_def Let_def)

lemma startRpc_idle:
  assumes "idleThreads s \<noteq> []" and "last (idleThreads s) < length (workers s)"
    and "rpc (workers s ! last (idleThreads s)) = NULL"
  shows "startRpc s r t =
     Inr (s\<lparr>services := (services s)[t := map_option (\<lambda>i. i\<lparr>requestsRunning := requestsRunning i + 1\<rparr>) (services s ! t)],
           idleThreads := butlast (idleThreads s),
           trace := trace s @ [EvStoreRpc (last (idleThreads s)) (Ptr r), EvFenceLeave,
              EvExchange (last (idleThreads s)) (state (workers s ! last (idleThreads s))) WORKING] @
              (if state (workers s ! last (idleThreads s)) = SLEEPING
               then [EvFutexWake (last (idleThreads s)) 1] else []),
           workers := (workers s)[last (idleThreads s) :=
              (workers s ! last (idleThreads s))\<lparr>serviceInfo := Some t, rpc := Ptr r,
                 state := WORKING, busyIndex := int (length (busyThreads s))\<rparr>],
           busyThreads := busyThreads s @ [last (idleThreads s)]\<rparr>)"
  using assms
  by (simp add: startRpc_def handoff_eq updWorker_def updInfo_def Let_def)

lemma handleRpc_valid:
  assumes "epochIsSet r" and "getStart r = Some h" and "unat (service h) \<le> M"
    and "services s ! unat (service h) = Some info"
  shows "handleRpc testing M s r =
     (if maxThreads info \<le> requestsRunning info
      then Inr (updInfo (unat (service h)) (\<lambda>i. i\<lparr>waitingRpcs := waitingRpcs i @ [r]\<rparr>) s)
      else startRpc s r (unat (service h)))"
  using assms by (simp add: handleRpc_def Let_def)

lemma handleRpc_invalid:
  assumes "epochIsSet r"
    and "getStart r = None \<or> M < unat (service (requestHeader r)) \<or>
         services s ! unat (service (requestHeader r)) = None"
  shows "handleRpc testing M s r = Inr (rejectRpc testing s r (getStart r))"
  using assms
  by (auto simp: handleRpc_def Let_def getStart_def split: option.splits if_splits)

lemma demoRpc_simps [simp]:
  "epochIsSet (demoRpc i n t)" "rpcId (demoRpc i n t) = i"
  "requestLength (demoRpc i n t) = n" "service (requestHeader (demoRpc i n t)) = t"
  "getStart (demoRpc i n t) = (if n < 4 then None else Some \<lparr>service = t, opcode = 7\<rparr>)"
  by (simp_all add: demoRpc_def getStart_def sizeof_RpcRequestCommon_def)

subsection \<open>Removing an element by moving the last one into its place\<close>

lemma swap_remove_length:
  "i < length xs \<Longrightarrow> length (butlast (xs[i := last xs])) = length xs - 1"
  by simp

lemma swap_remove_nth:
  "j < length xs - 1 \<Longrightarrow> butlast (xs[i := last xs]) ! j = (if j = i then last xs else xs ! j)"
  by (simp add: nth_butlast nth_list_update)

lemma mset_butlast:
  assumes "xs \<noteq> []"
  shows "mset (butlast xs) = mset xs - {#last xs#}"
proof -
  have "mset xs = mset (butlast xs @ [last xs])" using assms by simp
  then show ?thesis by simp
qed

lemma swap_remove_mset:
  assumes "i < length xs"
  shows "mset (butlast (xs[i := last xs])) = mset xs - {#xs ! i#}"
proof (cases "i = length xs - 1")
  case True
  from assms have "xs \<noteq> []" by auto
  with True have "xs ! i = last xs" by (simp add: last_conv_nth)
  moreover from this have "xs[i := last xs] = xs" by (metis list_update_id)
  moreover from assms have "xs \<noteq> []" by auto
  ultimately show ?thesis by (simp add: mset_butlast)
next
  case False
  let ?ys = "xs[i := last xs]"
  from assms have ne: "?ys \<noteq> []" by auto
  from assms have "xs \<noteq> []" by auto
  with False have "last ?ys = last xs"
    by (simp add: last_list_update)
  moreover have "mset ?ys = add_mset (last xs) (mset xs - {#xs ! i#})"
    using assms by (simp add: mset_update)
  ultimately show ?thesis using ne by (simp add: mset_butlast)
qed

lemma swap_remove_set:
  assumes "distinct xs" and "i < length xs"
  shows "set (butlast (xs[i := last xs])) = set xs - {xs ! i}"
proof -
  have "set (butlast (xs[i := last xs])) = set_mset (mset xs - {#xs ! i#})"
    using swap_remove_mset [OF assms(2)] by (metis set_mset_mset)
  also have "\<dots> = set xs - {xs ! i}"
    using assms by (auto simp: in_diff_count distinct_count_atmost_1 split: if_splits)
  finally show ?thesis .
qed

lemma swap_remove_filter:
  assumes "i < length xs"
  shows "length (filter P (butlast (xs[i := last xs]))) =
         length (filter P xs) - (if P (xs ! i) then 1 else 0)"
proof -
  have "size (filter_mset P (mset (butlast (xs[i := last xs])))) =
        size (filter_mset P (mset xs - {#xs ! i#}))"
    by (simp add: swap_remove_mset [OF assms])
  moreover have "xs ! i \<in># mset xs" using assms by simp
  ultimately show ?thesis
    by (auto simp: filter_diff_mset size_Diff_singleton simp flip: mset_filter size_mset)
qed

subsection \<open>The invariants hold in every reachable state\<close>

lemma nth_update_total:
  "xs[w := y] ! v = (if v = w \<and> w < length xs then y else xs ! v)"
  by (cases "v = w"; cases "w < length xs"; simp add: list_update_beyond)

lemma indexOk_busy_valid:
  "indexOk s \<Longrightarrow> w \<in> set (busyThreads s) \<Longrightarrow> w < length (workers s)"
  by (auto simp: indexOk_def in_set_conv_nth)

lemma indexOk_distinct:
  assumes "indexOk s"
  shows "distinct (busyThreads s)"
proof -
  have "i = j" if "i < length (busyThreads s)" "j < length (busyThreads s)"
      "busyThreads s ! i = busyThreads s ! j" for i j
  proof -
    from assms that(1) have "busyIndex (workers s ! (busyThreads s ! i)) = int i"
      by (simp add: indexOk_def)
    moreover from assms that(2) have "busyIndex (workers s ! (busyThreads s ! j)) = int j"
      by (simp add: indexOk_def)
    ultimately have "int i = int j" by (simp only: that(3))
    then show ?thesis by simp
  qed
  then show ?thesis by (auto simp: distinct_conv_nth)
qed

lemma indexOk_frame:
  assumes "indexOk s" and "busyThreads s' = busyThreads s" and "idleThreads s' = idleThreads s"
    and "length (workers s') = length (workers s)"
    and "\<And>v. v < length (workers s) \<Longrightarrow> busyIndex (workers s' ! v) = busyIndex (workers s ! v)"
  shows "indexOk s'"
  using assms unfolding indexOk_def by simp

lemma holdsOk_frame:
  assumes "holdsOk s" and "busyThreads s' = busyThreads s"
    and "length (workers s') = length (workers s)"
    and "\<And>v. v < length (workers s) \<Longrightarrow> rpc (workers s' ! v) = rpc (workers s ! v)"
  shows "holdsOk s'"
  using assms unfolding holdsOk_def by simp

lemma boundTo_frame:
  assumes "busyThreads s' = busyThreads s"
    and "\<And>v. v \<in> set (busyThreads s) \<Longrightarrow> serviceInfo (workers s' ! v) = serviceInfo (workers s ! v)"
  shows "boundTo s' t = boundTo s t"
  unfolding boundTo_def using assms by (auto intro: filter_cong)

lemma countOk_frame:
  assumes "countOk M s" and "busyThreads s' = busyThreads s" and "services s' = services s"
    and "\<And>v. v \<in> set (busyThreads s) \<Longrightarrow> serviceInfo (workers s' ! v) = serviceInfo (workers s ! v)"
  shows "countOk M s'"
proof -
  have "boundTo s' t = boundTo s t" for t
    using assms(2,4) by (rule boundTo_frame)
  with assms(2,3,4) have "countOk M s' = countOk M s"
    by (simp add: countOk_def)
  with assms(1) show ?thesis by simp
qed

lemma queueOk_frame:
  "queueOk M s \<Longrightarrow> services s' = services s \<Longrightarrow> queueOk M s'"
  unfolding queueOk_def by simp

lemma mgr_inv_frame:
  assumes "mgr_inv M s" and "busyThreads s' = busyThreads s" and "idleThreads s' = idleThreads s"
    and "services s' = services s" and "length (workers s') = length (workers s)"
    and "\<And>v. v < length (workers s) \<Longrightarrow> busyIndex (workers s' ! v) = busyIndex (workers s ! v)"
    and "\<And>v. v < length (workers s) \<Longrightarrow> rpc (workers s' ! v) = rpc (workers s ! v)"
    and "\<And>v. v < length (workers s) \<Longrightarrow> serviceInfo (workers s' ! v) = serviceInfo (workers s ! v)"
  shows "mgr_inv M s'"
proof -
  from assms(1) have i: "indexOk s" and h: "holdsOk s" and c: "countOk M s"
    and q: "queueOk M s" and l: "length (services s) = Suc M"
    by (simp_all add: mgr_inv_def)
  have "indexOk s'" using i assms(2,3,5,6) by (rule indexOk_frame)
  moreover have "holdsOk s'" using h assms(2,5,7) by (rule holdsOk_frame)
  moreover have "countOk M s'"
    using c assms(2,4) by (rule countOk_frame) (simp add: assms(8) indexOk_busy_valid [OF i])
  moreover have "queueOk M s'" using q assms(4) by (rule queueOk_frame)
  ultimately show ?thesis using l assms(4) by (simp add: mgr_inv_def)
qed

lemma workerMain_step_fields [simp]:
  "busyIndex (workerMain_step a k) = busyIndex k"
  "rpc (workerMain_step a k) = rpc k"
  "serviceInfo (workerMain_step a k) = serviceInfo k"
  "exited (workerMain_step a k) = exited k"
  by (cases a; simp add: workerMain_step_def Worker_sendReply_def)+

lemma worker_step_inv:
  assumes "mgr_inv M s"
  shows "mgr_inv M (updWorker w (workerMain_step a) s)"
  using assms by (rule mgr_inv_frame) (simp_all add: nth_update_total)

lemma rejectRpc_inv:
  assumes "mgr_inv M s"
  shows "mgr_inv M (rejectRpc testing s r h)"
  using assms by (rule mgr_inv_frame) (simp_all add: rejectRpc_def split: option.split)

lemma getStart_Some:
  "getStart r = Some h \<Longrightarrow> h = requestHeader r"
  by (simp add: getStart_def split: if_splits)

lemma countOkD:
  assumes "countOk M s" and "t \<le> M" and "services s ! t = Some info"
  shows "requestsRunning info \<le> maxThreads info"
    and "requestsRunning info = int (length (boundTo s t))"
    and "waitingRpcs info \<noteq> [] \<Longrightarrow> requestsRunning info = maxThreads info"
  using assms unfolding countOk_def by blast+

lemma countOk_busyD:
  assumes "countOk M s" and "w \<in> set (busyThreads s)"
  obtains t info where "t \<le> M" and "serviceInfo (workers s ! w) = Some t"
    and "services s ! t = Some info"
  using assms unfolding countOk_def by blast

lemma queueOkD:
  assumes "queueOk M s" and "t \<le> M" and "services s ! t = Some info"
    and "r \<in> set (waitingRpcs info)"
  shows "getStart r \<noteq> None" and "unat (service (requestHeader r)) = t"
  using assms unfolding queueOk_def by blast+

lemma countOkI:
  assumes "\<And>w. w \<in> set (busyThreads s) \<Longrightarrow>
             \<exists>t\<le>M. serviceInfo (workers s ! w) = Some t \<and> services s ! t \<noteq> None"
    and "\<And>t info. t \<le> M \<Longrightarrow> services s ! t = Some info \<Longrightarrow>
           requestsRunning info \<le> maxThreads info \<and>
           requestsRunning info = int (length (boundTo s t)) \<and>
           (waitingRpcs info \<noteq> [] \<longrightarrow> requestsRunning info = maxThreads info)"
  shows "countOk M s"
  unfolding countOk_def using assms by blast

lemma queueOkI:
  assumes "\<And>t info r. t \<le> M \<Longrightarrow> services s ! t = Some info \<Longrightarrow> r \<in> set (waitingRpcs info) \<Longrightarrow>
             getStart r \<noteq> None \<and> unat (service (requestHeader r)) = t"
  shows "queueOk M s"
  unfolding queueOk_def using assms by blast

lemma mgr_invI:
  "length (services s) = Suc M \<Longrightarrow> indexOk s \<Longrightarrow> holdsOk s \<Longrightarrow> countOk M s \<Longrightarrow> queueOk M s
     \<Longrightarrow> mgr_inv M s"
  by (simp add: mgr_inv_def)

lemma enqueue_inv:
  assumes inv: "mgr_inv M s" and t: "t \<le> M" and info: "services s ! t = Some info"
    and full: "maxThreads info \<le> requestsRunning info"
    and hdr: "getStart r = Some h" "unat (service h) = t"
  shows "mgr_inv M (updInfo t (\<lambda>i. i\<lparr>waitingRpcs := waitingRpcs i @ [r]\<rparr>) s)"
    (is "mgr_inv M ?s'")
proof (rule mgr_invI)
  from inv have i: "indexOk s" and h: "holdsOk s" and c: "countOk M s"
    and q: "queueOk M s" and l: "length (services s) = Suc M"
    by (simp_all add: mgr_inv_def)
  have b: "boundTo ?s' u = boundTo s u" for u
    by (rule boundTo_frame) simp_all
  show "length (services ?s') = Suc M" using l by simp
  show "indexOk ?s'" using i by (rule indexOk_frame) simp_all
  show "holdsOk ?s'" using h by (rule holdsOk_frame) simp_all
  show "countOk M ?s'"
  proof (rule countOkI)
    fix w assume "w \<in> set (busyThreads ?s')"
    then have "w \<in> set (busyThreads s)" by simp
    from countOk_busyD [OF c this] obtain u info' where
      "u \<le> M" "serviceInfo (workers s ! w) = Some u" "services s ! u = Some info'"
      by blast
    then show "\<exists>t\<le>M. serviceInfo (workers ?s' ! w) = Some t \<and> services ?s' ! t \<noteq> None"
      using l info by (auto simp: nth_update_total)
  next
    fix u info' assume u: "u \<le> M" "services ?s' ! u = Some info'"
    note ct = countOkD [OF c t info]
    show "requestsRunning info' \<le> maxThreads info' \<and>
          requestsRunning info' = int (length (boundTo ?s' u)) \<and>
          (waitingRpcs info' \<noteq> [] \<longrightarrow> requestsRunning info' = maxThreads info')"
    proof (cases "u = t")
      case True
      with u info l t have "info' = info\<lparr>waitingRpcs := waitingRpcs info @ [r]\<rparr>"
        by (simp add: nth_update_total)
      with ct full True show ?thesis by (simp add: b)
    next
      case False
      with u have "services s ! u = Some info'" by (simp add: nth_update_total)
      from countOkD [OF c u(1) this] show ?thesis by (simp add: b)
    qed
  qed
  show "queueOk M ?s'"
  proof (rule queueOkI)
    fix u info' x
    assume u: "u \<le> M" "services ?s' ! u = Some info'" "x \<in> set (waitingRpcs info')"
    show "getStart x \<noteq> None \<and> unat (service (requestHeader x)) = u"
    proof (cases "u = t")
      case True
      with u info l t have "x = r \<or> x \<in> set (waitingRpcs info)"
        by (auto simp: nth_update_total)
      then show ?thesis
        using queueOkD [OF q t info] hdr True getStart_Some [OF hdr(1)] by auto
    next
      case False
      with u have "services s ! u = Some info'" by (simp add: nth_update_total)
      from queueOkD [OF q u(1) this u(3)] show ?thesis by simp
    qed
  qed
qed

lemma start_inv:
  assumes inv: "mgr_inv M s" and t: "t \<le> M" and info: "services s ! t = Some info"
    and room: "requestsRunning info < maxThreads info"
    and sv: "services s' = (services s)[t := Some (info\<lparr>requestsRunning := requestsRunning info + 1\<rparr>)]"
    and bs: "busyThreads s' = busyThreads s @ [w]"
    and wnew: "w \<notin> set (busyThreads s)" "w < length (workers s')"
    and old: "\<And>v. v < length (workers s') \<Longrightarrow> v \<noteq> w \<Longrightarrow>
                v < length (workers s) \<and> workers s' ! v = workers s ! v"
    and len: "length (workers s) \<le> length (workers s')"
    and wk: "serviceInfo (workers s' ! w) = Some t" "rpc (workers s' ! w) \<noteq> WORKER_EXIT"
      "busyIndex (workers s' ! w) = int (length (busyThreads s))"
    and idl: "set (idleThreads s') \<subseteq> set (idleThreads s) - {w}" "distinct (idleThreads s')"
  shows "mgr_inv M s'"
proof (rule mgr_invI)
  from inv have i: "indexOk s" and h: "holdsOk s" and c: "countOk M s"
    and q: "queueOk M s" and l: "length (services s) = Suc M"
    by (simp_all add: mgr_inv_def)
  have valid: "v < length (workers s)" if "v \<in> set (busyThreads s)" for v
    using i that by (rule indexOk_busy_valid)
  have same: "workers s' ! v = workers s ! v" if "v \<in> set (busyThreads s)" for v
  proof -
    from that wnew(1) have "v \<noteq> w" by auto
    moreover from valid [OF that] len have "v < length (workers s')" by simp
    ultimately show ?thesis using old by blast
  qed
  show "length (services s') = Suc M" using l sv by simp
  show "indexOk s'"
    unfolding indexOk_def
  proof (intro conjI allI impI ballI)
    fix j assume j: "j < length (busyThreads s')"
    show "busyThreads s' ! j < length (workers s')"
    proof (cases "j < length (busyThreads s)")
      case True
      then have "busyThreads s ! j \<in> set (busyThreads s)" by simp
      from valid [OF this] len True show ?thesis by (simp add: bs nth_append)
    next
      case False
      with j have "j = length (busyThreads s)" by (simp add: bs)
      then show ?thesis using wnew(2) by (simp add: bs)
    qed
    show "busyIndex (workers s' ! (busyThreads s' ! j)) = int j"
    proof (cases "j < length (busyThreads s)")
      case True
      then have m: "busyThreads s ! j \<in> set (busyThreads s)" by simp
      from i True have "busyIndex (workers s ! (busyThreads s ! j)) = int j"
        by (simp add: indexOk_def)
      with same [OF m] True show ?thesis by (simp add: bs nth_append)
    next
      case False
      with j have "j = length (busyThreads s)" by (simp add: bs)
      then show ?thesis using wk(3) by (simp add: bs)
    qed
  next
    fix v assume v: "v < length (workers s')" "v \<notin> set (busyThreads s')"
    then have "v \<noteq> w" "v \<notin> set (busyThreads s)" by (auto simp: bs)
    moreover from old [OF v(1) this(1)] have "v < length (workers s)" "workers s' ! v = workers s ! v"
      by simp_all
    ultimately show "busyIndex (workers s' ! v) = - 1" using i by (simp add: indexOk_def)
  next
    fix v assume "v \<in> set (idleThreads s')"
    with idl(1) have v: "v \<in> set (idleThreads s)" "v \<noteq> w" by auto
    with i have "v < length (workers s)" "v \<notin> set (busyThreads s)" by (auto simp: indexOk_def)
    with v len show "v < length (workers s')" "v \<notin> set (busyThreads s')" by (auto simp: bs)
  next
    show "distinct (idleThreads s')" by (rule idl(2))
  qed
  show "holdsOk s'"
    unfolding holdsOk_def
  proof (intro conjI allI impI)
    fix v assume v: "v < length (workers s')" "v \<notin> set (busyThreads s')"
    then have "v \<noteq> w" "v \<notin> set (busyThreads s)" by (auto simp: bs)
    moreover from old [OF v(1) this(1)] have "v < length (workers s)" "workers s' ! v = workers s ! v"
      by simp_all
    ultimately show "rpc (workers s' ! v) = NULL" using h by (simp add: holdsOk_def)
  next
    fix v assume v: "v < length (workers s')" "v \<in> set (busyThreads s')"
    show "rpc (workers s' ! v) \<noteq> WORKER_EXIT"
    proof (cases "v = w")
      case True
      then show ?thesis using wk(2) by simp
    next
      case False
      with v have m: "v \<in> set (busyThreads s)" by (simp add: bs)
      from h valid [OF m] m have "rpc (workers s ! v) \<noteq> WORKER_EXIT" by (simp add: holdsOk_def)
      with same [OF m] show ?thesis by simp
    qed
  qed
  have bound: "boundTo s' u = boundTo s u @ (if u = t then [w] else [])" for u
  proof -
    have "filter (\<lambda>v. serviceInfo (workers s' ! v) = Some u) (busyThreads s) =
          filter (\<lambda>v. serviceInfo (workers s ! v) = Some u) (busyThreads s)"
      by (rule filter_cong) (simp_all add: same)
    then show ?thesis using wk(1) by (auto simp: boundTo_def bs)
  qed
  show "countOk M s'"
  proof (rule countOkI)
    fix v assume "v \<in> set (busyThreads s')"
    then consider "v = w" | "v \<in> set (busyThreads s)" by (auto simp: bs)
    then show "\<exists>t\<le>M. serviceInfo (workers s' ! v) = Some t \<and> services s' ! t \<noteq> None"
    proof cases
      case 1
      then show ?thesis using wk(1) t l by (auto simp: sv)
    next
      case 2
      from countOk_busyD [OF c 2] obtain u info' where
        "u \<le> M" "serviceInfo (workers s ! v) = Some u" "services s ! u = Some info'"
        by blast
      then show ?thesis using same [OF 2] by (auto simp: sv nth_update_total)
    qed
  next
    fix u info' assume u: "u \<le> M" "services s' ! u = Some info'"
    note ct = countOkD [OF c t info]
    show "requestsRunning info' \<le> maxThreads info' \<and>
          requestsRunning info' = int (length (boundTo s' u)) \<and>
          (waitingRpcs info' \<noteq> [] \<longrightarrow> requestsRunning info' = maxThreads info')"
    proof (cases "u = t")
      case True
      with u l t have "info' = info\<lparr>requestsRunning := requestsRunning info + 1\<rparr>"
        by (simp add: sv nth_update_total)
      with ct room True show ?thesis by (auto simp: bound)
    next
      case False
      with u have "services s ! u = Some info'" by (simp add: sv nth_update_total)
      from countOkD [OF c u(1) this] False show ?thesis by (simp add: bound)
    qed
  qed
  show "queueOk M s'"
  proof (rule queueOkI)
    fix u info' x
    assume u: "u \<le> M" "services s' ! u = Some info'" "x \<in> set (waitingRpcs info')"
    show "getStart x \<noteq> None \<and> unat (service (requestHeader x)) = u"
    proof (cases "u = t")
      case True
      with u l t have "x \<in> set (waitingRpcs info)"
        by (auto simp: sv nth_update_total)
      from queueOkD [OF q t info this] True show ?thesis by simp
    next
      case False
      with u have "services s ! u = Some info'" by (simp add: sv nth_update_total)
      from queueOkD [OF q u(1) this u(3)] show ?thesis by simp
    qed
  qed
qed

lemma startRpc_inv:
  assumes inv: "mgr_inv M s" and t: "t \<le> M" and info: "services s ! t = Some info"
    and room: "requestsRunning info < maxThreads info"
  shows "\<exists>s'. startRpc s r t = Inr s' \<and> mgr_inv M s'"
proof (cases "idleThreads s = []")
  case True
  let ?s' = "s\<lparr>services := (services s)[t := map_option (\<lambda>i. i\<lparr>requestsRunning := requestsRunning i + 1\<rparr>) (services s ! t)],
           trace := trace s @ [EvStoreRpc (length (workers s)) (Ptr r), EvFenceLeave,
              EvExchange (length (workers s)) POLLING WORKING],
           workers := workers s @ [\<lparr>serviceInfo = Some t, rpc = Ptr r,
              busyIndex = int (length (busyThreads s)), state = WORKING, exited = False\<rparr>],
           busyThreads := busyThreads s @ [length (workers s)]\<rparr>"
  from inv have i: "indexOk s" by (simp add: mgr_inv_def)
  have nb: "length (workers s) \<notin> set (busyThreads s)"
    using indexOk_busy_valid [OF i] by blast
  have "mgr_inv M ?s'"
    by (rule start_inv [OF inv t info room, where w = "length (workers s)"])
      (use nb in \<open>simp_all add: info True nth_append\<close>)
  with startRpc_new [OF True] show ?thesis by simp
next
  case False
  let ?w = "last (idleThreads s)"
  let ?s' = "s\<lparr>services := (services s)[t := map_option (\<lambda>i. i\<lparr>requestsRunning := requestsRunning i + 1\<rparr>) (services s ! t)],
           idleThreads := butlast (idleThreads s),
           trace := trace s @ [EvStoreRpc ?w (Ptr r), EvFenceLeave,
              EvExchange ?w (state (workers s ! ?w)) WORKING] @
              (if state (workers s ! ?w) = SLEEPING then [EvFutexWake ?w 1] else []),
           workers := (workers s)[?w :=
              (workers s ! ?w)\<lparr>serviceInfo := Some t, rpc := Ptr r,
                 state := WORKING, busyIndex := int (length (busyThreads s))\<rparr>],
           busyThreads := busyThreads s @ [?w]\<rparr>"
  from inv have i: "indexOk s" and h: "holdsOk s" by (simp_all add: mgr_inv_def)
  from False have m: "?w \<in> set (idleThreads s)" by simp
  with i have w: "?w < length (workers s)" "?w \<notin> set (busyThreads s)"
    by (auto simp: indexOk_def)
  with h have n: "rpc (workers s ! ?w) = NULL" by (simp add: holdsOk_def)
  from i have d: "distinct (idleThreads s)" by (simp add: indexOk_def)
  have "distinct (butlast (idleThreads s) @ [?w])" using d False by simp
  then have nb: "?w \<notin> set (butlast (idleThreads s))" by simp
  have sub: "set (butlast (idleThreads s)) \<subseteq> set (idleThreads s) - {?w}"
    using nb by (auto dest: in_set_butlastD)
  have "mgr_inv M ?s'"
    by (rule start_inv [OF inv t info room, where w = ?w])
      (use w sub d in \<open>simp_all add: info nth_update_total distinct_butlast\<close>)
  with startRpc_idle [OF False w(1) n] show ?thesis by simp
qed

lemma handleRpc_inv:
  assumes inv: "mgr_inv M s" and ep: "epochIsSet r"
  shows "\<exists>s'. handleRpc testing M s r = Inr s' \<and> mgr_inv M s'"
proof (cases "getStart r = None \<or> M < unat (service (requestHeader r)) \<or>
         services s ! unat (service (requestHeader r)) = None")
  case True
  with ep have "handleRpc testing M s r = Inr (rejectRpc testing s r (getStart r))"
    by (rule handleRpc_invalid)
  with rejectRpc_inv [OF inv] show ?thesis by simp
next
  case False
  then obtain h info where h: "getStart r = Some h"
    and t: "unat (service (requestHeader r)) \<le> M"
    and info: "services s ! unat (service (requestHeader r)) = Some info"
    by auto
  from getStart_Some [OF h] have hh: "h = requestHeader r" .
  let ?t = "unat (service h)"
  from t info hh have t': "?t \<le> M" and info': "services s ! ?t = Some info" by simp_all
  note v = handleRpc_valid [OF ep h t' info', of testing]
  show ?thesis
  proof (cases "maxThreads info \<le> requestsRunning info")
    case True
    from enqueue_inv [OF inv t' info' True h refl] v True show ?thesis by simp
  next
    case False
    then have "requestsRunning info < maxThreads info" by simp
    from startRpc_inv [OF inv t' info' this, of r] v False show ?thesis by simp
  qed
qed

lemma replyIfPending_view:
  assumes "rpc (workers s ! w) \<noteq> WORKER_EXIT"
  obtains s1 where "replyIfPending w s = Inr s1"
    and "services s1 = services s" and "busyThreads s1 = busyThreads s"
    and "idleThreads s1 = idleThreads s" and "testRpcs s1 = testRpcs s"
    and "serviceCount s1 = serviceCount s"
    and "workers s1 = (workers s)[w := (workers s ! w)\<lparr>rpc := NULL\<rparr>]"
    and "trace s1 = trace s @
           (case rpc (workers s ! w) of Ptr r \<Rightarrow> [EvSendReply (rpcId r)] | _ \<Rightarrow> [])"
proof (cases "rpc (workers s ! w)")
  case NULL
  then have "(workers s ! w)\<lparr>rpc := NULL\<rparr> = workers s ! w"
    by (cases "workers s ! w") simp
  then have "(workers s)[w := (workers s ! w)\<lparr>rpc := NULL\<rparr>] = workers s"
    by simp
  with NULL that [of s] show ?thesis by (simp add: replyIfPending_def)
next
  case WORKER_EXIT
  with assms show ?thesis by simp
next
  case (Ptr r)
  with that [of "updWorker w (\<lambda>k. k\<lparr>rpc := NULL\<rparr>) (emit [EvSendReply (rpcId r)] s)"]
  show ?thesis by (simp add: replyIfPending_def)
qed

lemma retire_fields:
  assumes "i < length (busyThreads s)" and "w = busyThreads s ! i"
    and "busyIndex (workers s ! w) = int i"
  shows "busyThreads (retire w t s) = butlast ((busyThreads s)[i := last (busyThreads s)])"
    and "idleThreads (retire w t s) = idleThreads s @ [w]"
    and "services (retire w t s) =
           (services s)[t := map_option (\<lambda>i. i\<lparr>requestsRunning := requestsRunning i - 1\<rparr>) (services s ! t)]"
    and "trace (retire w t s) = trace s"
    and "testRpcs (retire w t s) = testRpcs s"
    and "serviceCount (retire w t s) = serviceCount s"
    and "length (workers (retire w t s)) = length (workers s)"
    and "workers (retire w t s) ! v =
           (if v = w \<and> w < length (workers s) then (workers s ! w)\<lparr>busyIndex := - 1\<rparr>
            else if v = last (busyThreads s) \<and> v < length (workers s) \<and> w \<noteq> last (busyThreads s)
              then (workers s ! v)\<lparr>busyIndex := int i\<rparr>
            else workers s ! v)"
proof -
  have last: "w = last (busyThreads s) \<Longrightarrow> (busyThreads s)[i := last (busyThreads s)] = busyThreads s"
    using assms(2) by (metis list_update_id)
  show "busyThreads (retire w t s) = butlast ((busyThreads s)[i := last (busyThreads s)])"
    using assms(3) last by (simp add: retire_def Let_def)
  show "idleThreads (retire w t s) = idleThreads s @ [w]"
    by (simp add: retire_def Let_def)
  show "services (retire w t s) =
           (services s)[t := map_option (\<lambda>i. i\<lparr>requestsRunning := requestsRunning i - 1\<rparr>) (services s ! t)]"
    by (simp add: retire_def Let_def)
  show "trace (retire w t s) = trace s" "testRpcs (retire w t s) = testRpcs s"
    "serviceCount (retire w t s) = serviceCount s"
    "length (workers (retire w t s)) = length (workers s)"
    by (simp_all add: retire_def Let_def)
  show "workers (retire w t s) ! v =
           (if v = w \<and> w < length (workers s) then (workers s ! w)\<lparr>busyIndex := - 1\<rparr>
            else if v = last (busyThreads s) \<and> v < length (workers s) \<and> w \<noteq> last (busyThreads s)
              then (workers s ! v)\<lparr>busyIndex := int i\<rparr>
            else workers s ! v)"
  proof (cases "w = last (busyThreads s)")
    case True
    then show ?thesis by (simp add: retire_def Let_def nth_update_total)
  next
    case False
    with assms(1,3) show ?thesis
      by (simp add: retire_def Let_def nth_update_total)
  qed
qed

lemma clear_inv:
  assumes inv: "mgr_inv M s" and "busyThreads s1 = busyThreads s"
    and "idleThreads s1 = idleThreads s" and "services s1 = services s"
    and wk: "workers s1 = (workers s)[w := (workers s ! w)\<lparr>rpc := NULL\<rparr>]"
  shows "mgr_inv M s1"
proof (rule mgr_invI)
  from inv have i: "indexOk s" and h: "holdsOk s" and c: "countOk M s"
    and q: "queueOk M s" and l: "length (services s) = Suc M"
    by (simp_all add: mgr_inv_def)
  show "length (services s1) = Suc M" using l assms(4) by simp
  show "indexOk s1" using i assms(2,3) by (rule indexOk_frame) (simp_all add: wk nth_update_total)
  show "countOk M s1" using c assms(2,4) by (rule countOk_frame) (simp add: wk nth_update_total)
  show "queueOk M s1" using q assms(4) by (rule queueOk_frame)
  show "holdsOk s1"
    using h unfolding holdsOk_def by (simp add: assms(2) wk nth_update_total)
qed

lemma next_inv:
  assumes inv: "mgr_inv M s" and w: "w \<in> set (busyThreads s)"
    and t: "t \<le> M" and info: "services s ! t = Some info"
    and bs: "busyThreads s' = busyThreads s" and "idleThreads s' = idleThreads s"
    and sv: "services s' = (services s)[t := Some (info\<lparr>waitingRpcs := tl (waitingRpcs info)\<rparr>)]"
    and wk: "workers s' = (workers s)[w := (workers s ! w)\<lparr>rpc := Ptr r, state := WORKING\<rparr>]"
  shows "mgr_inv M s'"
proof (rule mgr_invI)
  from inv have i: "indexOk s" and h: "holdsOk s" and c: "countOk M s"
    and q: "queueOk M s" and l: "length (services s) = Suc M"
    by (simp_all add: mgr_inv_def)
  have b: "boundTo s' u = boundTo s u" for u
    using bs by (rule boundTo_frame) (simp add: wk nth_update_total)
  show "length (services s') = Suc M" using l sv by simp
  show "indexOk s'" using i bs assms(6) by (rule indexOk_frame) (simp_all add: wk nth_update_total)
  show "holdsOk s'"
    using h w unfolding holdsOk_def by (auto simp: bs wk nth_update_total)
  show "countOk M s'"
  proof (rule countOkI)
    fix v assume "v \<in> set (busyThreads s')"
    then have "v \<in> set (busyThreads s)" by (simp add: bs)
    from countOk_busyD [OF c this] obtain u info' where
      "u \<le> M" "serviceInfo (workers s ! v) = Some u" "services s ! u = Some info'"
      by blast
    then show "\<exists>t\<le>M. serviceInfo (workers s' ! v) = Some t \<and> services s' ! t \<noteq> None"
      by (auto simp: sv wk nth_update_total)
  next
    fix u info' assume u: "u \<le> M" "services s' ! u = Some info'"
    note ct = countOkD [OF c t info]
    show "requestsRunning info' \<le> maxThreads info' \<and>
          requestsRunning info' = int (length (boundTo s' u)) \<and>
          (waitingRpcs info' \<noteq> [] \<longrightarrow> requestsRunning info' = maxThreads info')"
    proof (cases "u = t")
      case True
      with u l t have "info' = info\<lparr>waitingRpcs := tl (waitingRpcs info)\<rparr>"
        by (simp add: sv nth_update_total)
      moreover have "waitingRpcs info \<noteq> []" if "tl (waitingRpcs info) \<noteq> []"
        using that by auto
      ultimately show ?thesis using ct True by (auto simp: b)
    next
      case False
      with u have "services s ! u = Some info'" by (simp add: sv nth_update_total)
      from countOkD [OF c u(1) this] show ?thesis by (simp add: b)
    qed
  qed
  show "queueOk M s'"
  proof (rule queueOkI)
    fix u info' x
    assume u: "u \<le> M" "services s' ! u = Some info'" "x \<in> set (waitingRpcs info')"
    show "getStart x \<noteq> None \<and> unat (service (requestHeader x)) = u"
    proof (cases "u = t")
      case True
      with u l t have "x \<in> set (tl (waitingRpcs info))"
        by (auto simp: sv nth_update_total)
      then have "x \<in> set (waitingRpcs info)" by (cases "waitingRpcs info") auto
      from queueOkD [OF q t info this] True show ?thesis by simp
    next
      case False
      with u have "services s ! u = Some info'" by (simp add: sv nth_update_total)
      from queueOkD [OF q u(1) this u(3)] show ?thesis by simp
    qed
  qed
qed

lemma retire_inv:
  assumes inv: "mgr_inv M s" and i: "i < length (busyThreads s)" and w: "w = busyThreads s ! i"
    and bound: "serviceInfo (workers s ! w) = Some t" and t: "t \<le> M"
    and info: "services s ! t = Some info" and empty: "waitingRpcs info = []"
    and null: "rpc (workers s ! w) = NULL"
  shows "mgr_inv M (retire w t s)" (is "mgr_inv M ?s'")
proof (rule mgr_invI)
  from inv have ix: "indexOk s" and h: "holdsOk s" and c: "countOk M s"
    and q: "queueOk M s" and l: "length (services s) = Suc M"
    by (simp_all add: mgr_inv_def)
  let ?xs = "busyThreads s"
  let ?b = "last ?xs"
  let ?xs' = "butlast (?xs[i := ?b])"
  from ix i w have bi: "busyIndex (workers s ! w) = int i" and wv: "w < length (workers s)"
    by (simp_all add: indexOk_def)
  note f = retire_fields [OF i w bi, of t]
  have d: "distinct ?xs" using ix by (rule indexOk_distinct)
  from i have ne: "?xs \<noteq> []" by auto
  have win: "w \<in> set ?xs" using i w by simp
  have set': "set ?xs' = set ?xs - {w}"
    using swap_remove_set [OF d i] w by simp
  have len': "length ?xs' = length ?xs - 1" using i by simp
  have bl: "?b = ?xs ! (length ?xs - 1)" using ne by (simp add: last_conv_nth)
  have bv: "?b < length (workers s)"
    using ne indexOk_busy_valid [OF ix, of ?b] by simp
  have si: "serviceInfo (workers ?s' ! v) = serviceInfo (workers s ! v)" for v
    by (simp add: f(8))
  have rp: "rpc (workers ?s' ! v) = rpc (workers s ! v)" for v
    by (simp add: f(8))
  show "length (services ?s') = Suc M" using l by (simp add: f(3))
  show "indexOk ?s'"
    unfolding indexOk_def
  proof (intro conjI allI impI ballI)
    fix j assume "j < length (busyThreads ?s')"
    then have j: "j < length ?xs - 1" by (simp add: f(1) len')
    then have jn: "?xs' ! j = (if j = i then ?b else ?xs ! j)" by (rule swap_remove_nth)
    have jlast: "j \<noteq> length ?xs - 1" using j by simp
    show "busyThreads ?s' ! j < length (workers ?s')"
    proof (cases "j = i")
      case True
      then show ?thesis using bv jn by (simp add: f(1,7))
    next
      case False
      from j have "?xs ! j \<in> set ?xs" by simp
      from indexOk_busy_valid [OF ix this] False jn show ?thesis by (simp add: f(1,7))
    qed
    show "busyIndex (workers ?s' ! (busyThreads ?s' ! j)) = int j"
    proof (cases "j = i")
      case True
      with jlast i bl w d have "w \<noteq> ?b"
        by (metis diff_less ne length_greater_0_conv nth_eq_iff_index_eq zero_less_one)
      with True bv jn show ?thesis by (simp add: f(1,8))
    next
      case False
      from j i False d w have n1: "?xs ! j \<noteq> w"
        by (simp add: nth_eq_iff_index_eq)
      from j jlast d bl ne have n2: "?xs ! j \<noteq> ?b"
        by (simp add: nth_eq_iff_index_eq)
      from ix j have "busyIndex (workers s ! (?xs ! j)) = int j" by (simp add: indexOk_def)
      with n1 n2 False jn show ?thesis by (simp add: f(1,8))
    qed
  next
    fix v assume v: "v < length (workers ?s')" "v \<notin> set (busyThreads ?s')"
    show "busyIndex (workers ?s' ! v) = - 1"
    proof (cases "v = w")
      case True
      then show ?thesis using wv by (simp add: f(8))
    next
      case False
      with v set' have nb: "v \<notin> set ?xs" by (simp add: f(1))
      with ne have "v \<noteq> ?b" by auto
      moreover from ix v nb have "busyIndex (workers s ! v) = - 1"
        by (simp add: indexOk_def f(7))
      ultimately show ?thesis using False by (simp add: f(8))
    qed
  next
    fix v assume "v \<in> set (idleThreads ?s')"
    then have "v = w \<or> v \<in> set (idleThreads s)" by (auto simp: f(2))
    moreover have "v < length (workers s) \<and> v \<notin> set ?xs" if "v \<in> set (idleThreads s)"
      using ix that by (auto simp: indexOk_def)
    ultimately have "v < length (workers s) \<and> v \<notin> set ?xs'"
      using wv set' by auto
    then show "v < length (workers ?s')" "v \<notin> set (busyThreads ?s')"
      by (simp_all add: f(1,7))
  next
    from ix win have "w \<notin> set (idleThreads s)" by (auto simp: indexOk_def)
    moreover from ix have "distinct (idleThreads s)" by (simp add: indexOk_def)
    ultimately show "distinct (idleThreads ?s')" by (simp add: f(2))
  qed
  show "holdsOk ?s'"
    unfolding holdsOk_def
  proof (intro conjI allI impI)
    fix v assume v: "v < length (workers ?s')" "v \<notin> set (busyThreads ?s')"
    show "rpc (workers ?s' ! v) = NULL"
    proof (cases "v = w")
      case True
      then show ?thesis using null by (simp add: rp)
    next
      case False
      with v set' have "v \<notin> set ?xs" by (simp add: f(1))
      with h v show ?thesis by (simp add: holdsOk_def rp f(7))
    qed
  next
    fix v assume v: "v < length (workers ?s')" "v \<in> set (busyThreads ?s')"
    with set' have "v \<in> set ?xs" by (simp add: f(1))
    with h v show "rpc (workers ?s' ! v) \<noteq> WORKER_EXIT" by (simp add: holdsOk_def rp f(7))
  qed
  have cnt: "length (boundTo ?s' u) = length (boundTo s u) - (if u = t then 1 else 0)" for u
  proof -
    have "length (filter (\<lambda>v. serviceInfo (workers s ! v) = Some u) ?xs') =
          length (filter (\<lambda>v. serviceInfo (workers s ! v) = Some u) ?xs) -
          (if serviceInfo (workers s ! w) = Some u then 1 else 0)"
      using swap_remove_filter [OF i, of "\<lambda>v. serviceInfo (workers s ! v) = Some u"]
      by (simp add: w [symmetric])
    with bound show ?thesis by (auto simp: boundTo_def si f(1))
  qed
  have pos: "0 < length (boundTo s t)"
    using win bound by (auto simp: boundTo_def filter_empty_conv length_greater_0_conv)
  have pos': "int (length (boundTo s t) - Suc 0) = int (length (boundTo s t)) - 1"
    using pos by (cases "length (boundTo s t)") simp_all
  show "countOk M ?s'"
  proof (rule countOkI)
    fix v assume "v \<in> set (busyThreads ?s')"
    with set' have "v \<in> set ?xs" by (simp add: f(1))
    from countOk_busyD [OF c this] obtain u info' where
      "u \<le> M" "serviceInfo (workers s ! v) = Some u" "services s ! u = Some info'"
      by blast
    then show "\<exists>t\<le>M. serviceInfo (workers ?s' ! v) = Some t \<and> services ?s' ! t \<noteq> None"
      using info by (auto simp: si f(3) nth_update_total)
  next
    fix u info' assume u: "u \<le> M" "services ?s' ! u = Some info'"
    note ct = countOkD [OF c t info]
    show "requestsRunning info' \<le> maxThreads info' \<and>
          requestsRunning info' = int (length (boundTo ?s' u)) \<and>
          (waitingRpcs info' \<noteq> [] \<longrightarrow> requestsRunning info' = maxThreads info')"
    proof (cases "u = t")
      case True
      with u l t info have "info' = info\<lparr>requestsRunning := requestsRunning info - 1\<rparr>"
        by (simp add: f(3) nth_update_total)
      with ct(1,2) empty pos' True show ?thesis by (simp add: cnt)
    next
      case False
      with u have "services s ! u = Some info'" by (simp add: f(3) nth_update_total)
      from countOkD [OF c u(1) this] False show ?thesis by (simp add: cnt)
    qed
  qed
  show "queueOk M ?s'"
  proof (rule queueOkI)
    fix u info' x
    assume u: "u \<le> M" "services ?s' ! u = Some info'" "x \<in> set (waitingRpcs info')"
    show "getStart x \<noteq> None \<and> unat (service (requestHeader x)) = u"
    proof (cases "u = t")
      case True
      with u l t info have "x \<in> set (waitingRpcs info)"
        by (auto simp: f(3) nth_update_total)
      from queueOkD [OF q t info this] True show ?thesis by simp
    next
      case False
      with u have "services s ! u = Some info'" by (simp add: f(3) nth_update_total)
      from queueOkD [OF q u(1) this u(3)] show ?thesis by simp
    qed
  qed
qed

lemma startNext_eq:
  assumes "w < length (workers s)" and "rpc (workers s ! w) = NULL"
  shows "startNext w t info s =
     Inr (s\<lparr>services := (services s)[t := map_option (\<lambda>i. i\<lparr>waitingRpcs := tl (waitingRpcs i)\<rparr>) (services s ! t)],
           trace := trace s @ [EvStoreRpc w (Ptr (hd (waitingRpcs info))), EvFenceLeave,
              EvExchange w (state (workers s ! w)) WORKING] @
              (if state (workers s ! w) = SLEEPING then [EvFutexWake w 1] else []),
           workers := (workers s)[w := (workers s ! w)\<lparr>rpc := Ptr (hd (waitingRpcs info)), state := WORKING\<rparr>]\<rparr>)"
  using assms by (simp add: startNext_def handoff_eq updInfo_def)

lemma pollBody_inv:
  assumes inv: "mgr_inv M s" and i: "i < length (busyThreads s)"
  shows "\<exists>s'. pollBody i s = Inr s' \<and> mgr_inv M s' \<and> i \<le> length (busyThreads s')"
proof -
  from inv have ix: "indexOk s" and h: "holdsOk s" and c: "countOk M s"
    and l: "length (services s) = Suc M"
    by (simp_all add: mgr_inv_def)
  define w where "w = busyThreads s ! i"
  from ix i have wv: "w < length (workers s)" and bi: "busyIndex (workers s ! w) = int i"
    by (simp_all add: indexOk_def w_def)
  from i have win: "w \<in> set (busyThreads s)" by (simp add: w_def)
  from h wv win have ne: "rpc (workers (emit [EvFenceEnter] s) ! w) \<noteq> WORKER_EXIT"
    by (simp add: holdsOk_def)
  from countOk_busyD [OF c win] obtain t info where t: "t \<le> M"
    and bound: "serviceInfo (workers s ! w) = Some t" and info: "services s ! t = Some info"
    by blast
  from replyIfPending_view [OF ne] obtain s1 where
    r: "replyIfPending w (emit [EvFenceEnter] s) = Inr s1"
    and f: "services s1 = services s" "busyThreads s1 = busyThreads s"
      "idleThreads s1 = idleThreads s"
      "workers s1 = (workers s)[w := (workers s ! w)\<lparr>rpc := NULL\<rparr>]"
    by (auto simp: emit_fields)
  have inv1: "mgr_inv M s1" using inv f(2,3,1,4) by (rule clear_inv)
  have wv1: "w < length (workers s1)" and null1: "rpc (workers s1 ! w) = NULL"
    and bound1: "serviceInfo (workers s1 ! w) = Some t"
    using wv bound by (simp_all add: f(4))
  have body: "pollBody i s =
    (if state (workers s ! w) = WORKING then Inr s
     else if state (workers s ! w) = POSTPROCESSING then Inr s1
     else if waitingRpcs info \<noteq> [] then startNext w t info s1
     else Inr (retire w t s1))"
    using i wv bi r bound1 t l info
    by (simp add: pollBody_def w_def [symmetric] Let_def f(1))
  consider (working) "state (workers s ! w) = WORKING"
    | (post) "state (workers s ! w) = POSTPROCESSING"
    | (more) "state (workers s ! w) \<noteq> WORKING" "state (workers s ! w) \<noteq> POSTPROCESSING"
        "waitingRpcs info \<noteq> []"
    | (retired) "state (workers s ! w) \<noteq> WORKING" "state (workers s ! w) \<noteq> POSTPROCESSING"
        "waitingRpcs info = []"
    by blast
  then show ?thesis
  proof cases
    case working
    with body inv i show ?thesis by simp
  next
    case post
    with body inv1 i show ?thesis by (simp add: f(2))
  next
    case more
    let ?s' = "s1\<lparr>services := (services s1)[t := map_option (\<lambda>i. i\<lparr>waitingRpcs := tl (waitingRpcs i)\<rparr>) (services s1 ! t)],
           trace := trace s1 @ [EvStoreRpc w (Ptr (hd (waitingRpcs info))), EvFenceLeave,
              EvExchange w (state (workers s1 ! w)) WORKING] @
              (if state (workers s1 ! w) = SLEEPING then [EvFutexWake w 1] else []),
           workers := (workers s1)[w := (workers s1 ! w)\<lparr>rpc := Ptr (hd (waitingRpcs info)), state := WORKING\<rparr>]\<rparr>"
    have "mgr_inv M ?s'"
      by (rule next_inv [OF inv1, where w = w and t = t and info = info])
        (use win t info in \<open>simp_all add: f(1,2)\<close>)
    with body more startNext_eq [OF wv1 null1, of t info] i show ?thesis
      by (simp add: f(2))
  next
    case retired
    have "mgr_inv M (retire w t s1)"
      by (rule retire_inv [OF inv1, where i = i and info = info])
        (use i t info retired bound1 null1 in \<open>simp_all add: f(1,2) w_def\<close>)
    moreover have "busyThreads (retire w t s1) =
        butlast ((busyThreads s1)[i := last (busyThreads s1)])"
      by (rule retire_fields(1)) (use i wv bi in \<open>simp_all add: f w_def\<close>)
    ultimately show ?thesis using body retired i by (simp add: f(2))
  qed
qed

lemma pollFrom_inv:
  assumes "mgr_inv M s" and "n \<le> length (busyThreads s)"
  shows "\<exists>s'. pollFrom n s = Inr s' \<and> mgr_inv M s'"
  using assms
proof (induction n arbitrary: s)
  case 0
  then show ?case by simp
next
  case (Suc n)
  then have "n < length (busyThreads s)" by simp
  from pollBody_inv [OF Suc.prems(1) this] obtain s1 where
    "pollBody n s = Inr s1" "mgr_inv M s1" "n \<le> length (busyThreads s1)"
    by blast
  with Suc.IH [of s1] show ?case by simp
qed

lemma poll_inv:
  assumes "mgr_inv M s"
  shows "\<exists>s'. poll s = Inr s' \<and> mgr_inv M s'"
  unfolding poll_def using assms by (rule pollFrom_inv) simp

lemma step_inv:
  assumes "mgr_inv M s" and "\<And>r. x = HandleRpc r \<Longrightarrow> epochIsSet r"
  shows "\<exists>s'. step testing M s x = Inr s' \<and> mgr_inv M s'"
proof (cases x)
  case (HandleRpc r)
  with assms handleRpc_inv [of M s r testing] show ?thesis by simp
next
  case Poll
  with assms poll_inv [of M s] show ?thesis by simp
next
  case (WorkerDoes w a)
  with assms worker_step_inv [of M s w a] show ?thesis by simp
qed

lemma run_inv:
  assumes "mgr_inv M s" and "\<And>r. HandleRpc r \<in> set xs \<Longrightarrow> epochIsSet r"
  shows "\<exists>s'. run testing M s xs = Inr s' \<and> mgr_inv M s'"
  using assms
proof (induction xs arbitrary: s)
  case Nil
  then show ?case by simp
next
  case (Cons x xs)
  from step_inv [OF Cons.prems(1), of x testing] Cons.prems(2) obtain s1 where
    "step testing M s x = Inr s1" "mgr_inv M s1"
    by auto
  with Cons.IH [of s1] Cons.prems(2) show ?case by simp
qed

lemma new_services:
  "t \<le> M \<Longrightarrow> services (ServiceManager_new M) ! t = None"
  by (simp add: ServiceManager_new_def del: replicate_Suc)

lemma new_inv: "mgr_inv M (ServiceManager_new M)"
proof (rule mgr_invI)
  show "length (services (ServiceManager_new M)) = Suc M"
    by (simp add: ServiceManager_new_def)
  show "indexOk (ServiceManager_new M)" "holdsOk (ServiceManager_new M)"
    by (simp_all add: indexOk_def holdsOk_def ServiceManager_new_def)
  show "countOk M (ServiceManager_new M)"
    by (rule countOkI) (simp_all add: new_services, simp add: ServiceManager_new_def)
  show "queueOk M (ServiceManager_new M)"
    by (rule queueOkI) (simp add: new_services)
qed

lemma addService_inv:
  assumes inv: "mgr_inv M s" and ok: "addService M s svc t = Inr s'"
    and cap: "0 \<le> threadLimit svc"
  shows "mgr_inv M s'"
proof (rule mgr_invI)
  from inv have ix: "indexOk s" and h: "holdsOk s" and c: "countOk M s"
    and q: "queueOk M s" and l: "length (services s) = Suc M"
    by (simp_all add: mgr_inv_def)
  from ok have t: "t \<le> M" and free: "services s ! t = None"
    and s': "s' = s\<lparr>services := (services s)[t := Some (ServiceInfo_construct svc)],
                  serviceCount := serviceCount s + 1\<rparr>"
    by (auto simp: addService_def split: if_splits)
  have b: "boundTo s' u = boundTo s u" for u
    by (rule boundTo_frame) (simp_all add: s')
  have none: "boundTo s t = []"
  proof -
    have "serviceInfo (workers s ! v) \<noteq> Some t" if "v \<in> set (busyThreads s)" for v
      using countOk_busyD [OF c that] free by (metis option.distinct(1) option.inject)
    then show ?thesis by (simp add: boundTo_def filter_empty_conv)
  qed
  show "length (services s') = Suc M" using l by (simp add: s')
  show "indexOk s'" using ix by (rule indexOk_frame) (simp_all add: s')
  show "holdsOk s'" using h by (rule holdsOk_frame) (simp_all add: s')
  show "countOk M s'"
  proof (rule countOkI)
    fix v assume "v \<in> set (busyThreads s')"
    then have "v \<in> set (busyThreads s)" by (simp add: s')
    from countOk_busyD [OF c this] obtain u info' where
      "u \<le> M" "serviceInfo (workers s ! v) = Some u" "services s ! u = Some info'"
      by blast
    then show "\<exists>t\<le>M. serviceInfo (workers s' ! v) = Some t \<and> services s' ! t \<noteq> None"
      by (auto simp: s' nth_update_total)
  next
    fix u info' assume u: "u \<le> M" "services s' ! u = Some info'"
    show "requestsRunning info' \<le> maxThreads info' \<and>
          requestsRunning info' = int (length (boundTo s' u)) \<and>
          (waitingRpcs info' \<noteq> [] \<longrightarrow> requestsRunning info' = maxThreads info')"
    proof (cases "u = t")
      case True
      with u l t have "info' = ServiceInfo_construct svc"
        by (simp add: s' nth_update_total)
      with cap none True show ?thesis by (simp add: b ServiceInfo_construct_def)
    next
      case False
      with u have "services s ! u = Some info'" by (simp add: s' nth_update_total)
      from countOkD [OF c u(1) this] show ?thesis by (simp add: b)
    qed
  qed
  show "queueOk M s'"
  proof (rule queueOkI)
    fix u info' x
    assume u: "u \<le> M" "services s' ! u = Some info'" "x \<in> set (waitingRpcs info')"
    show "getStart x \<noteq> None \<and> unat (service (requestHeader x)) = u"
    proof (cases "u = t")
      case True
      with u l t have "info' = ServiceInfo_construct svc"
        by (simp add: s' nth_update_total)
      with u(3) show ?thesis by (simp add: ServiceInfo_construct_def)
    next
      case False
      with u have "services s ! u = Some info'" by (simp add: s' nth_update_total)
      from queueOkD [OF q u(1) this u(3)] show ?thesis by simp
    qed
  qed
qed

lemma addServices_inv:
  assumes "mgr_inv M s" and "addServices M s regs = Inr s'"
    and "\<forall>(svc, t)\<in>set regs. 0 \<le> threadLimit svc"
  shows "mgr_inv M s'"
  using assms
proof (induction regs arbitrary: s)
  case Nil
  then show ?case by simp
next
  case (Cons x regs)
  obtain svc t where x: "x = (svc, t)" by (cases x)
  with Cons.prems(2) obtain s1 where s1: "addService M s svc t = Inr s1"
    "addServices M s1 regs = Inr s'"
    by (auto split: sum.splits)
  from Cons.prems(3) x have "0 \<le> threadLimit svc" by simp
  with Cons.prems(1) s1(1) have "mgr_inv M s1" by (rule addService_inv)
  with Cons.IH [of s1] s1(2) Cons.prems(3) show ?case by simp
qed

lemma startup_inv:
  assumes "addServices M (ServiceManager_new M) regs = Inr s"
    and "\<forall>(svc, t)\<in>set regs. 0 \<le> threadLimit svc"
  shows "mgr_inv M s"
  using new_inv assms by (rule addServices_inv)

lemma handleRpc_epoch:
  "handleRpc testing M s r = Inr s' \<Longrightarrow> epochIsSet r"
  by (simp add: handleRpc_def split: if_splits)

lemma step_Inr_inv:
  assumes "mgr_inv M s" and "step testing M s x = Inr s'"
  shows "mgr_inv M s'"
proof -
  have e: "epochIsSet r" if "x = HandleRpc r" for r
    using assms(2) that by (auto dest: handleRpc_epoch)
  have "\<exists>s'. step testing M s x = Inr s' \<and> mgr_inv M s'"
    using assms(1) e by (rule step_inv)
  with assms(2) show ?thesis by auto
qed

lemma run_Inr_inv:
  assumes "mgr_inv M s" and "run testing M s xs = Inr s'"
  shows "mgr_inv M s'"
  using assms
proof (induction xs arbitrary: s)
  case Nil
  then show ?case by simp
next
  case (Cons x xs)
  from Cons.prems(2) obtain s1 where s1: "step testing M s x = Inr s1"
    "run testing M s1 xs = Inr s'"
    by (auto split: sum.splits)
  from Cons.prems(1) s1(1) have "mgr_inv M s1" by (rule step_Inr_inv)
  with Cons.IH s1(2) show ?case by blast
qed

lemma demo_startup:
  "addServices 2 (ServiceManager_new 2) [(demoService 1, 1)] = Inr demoStart"
  by (simp add: addService_def ServiceManager_new_def demoStart_def eval_nat_numeral)

lemma demo_run: "run True 2 demoStart demoOps = Inr demoMid"
  by (simp add: demoOps_def demoStart_def demoMid_def handleRpc_def startRpc_def handoff_def
      poll_def pollBody_def replyIfPending_def startNext_def retire_def Let_def
      ServiceInfo_construct_def demoService_def Worker_new_def workerMain_step_def inHandler_def
      updWorker_def updInfo_def emit_def numeral_2_eq_2)

lemma reachable_inv:
  assumes "addServices M (ServiceManager_new M) regs = Inr s0"
    and "\<forall>(svc, t)\<in>set regs. 0 \<le> threadLimit svc"
    and "run testing M s0 ops = Inr s"
  shows "mgr_inv M s"
proof -
  from assms(1,2) have "mgr_inv M s0" by (rule startup_inv)
  then show ?thesis using assms(3) by (rule run_Inr_inv)
qed

lemma indexOk_at:
  assumes "indexOk s" and "w \<in> set (busyThreads s)"
  obtains i where "i < length (busyThreads s)" and "busyThreads s ! i = w"
    and "busyIndex (workers s ! w) = int i"
proof -
  from assms(2) obtain i where i: "i < length (busyThreads s)" "busyThreads s ! i = w"
    by (auto simp: in_set_conv_nth)
  with assms(1) have "busyIndex (workers s ! w) = int i" by (auto simp: indexOk_def)
  with i that show ?thesis by blast
qed

lemma repliedIds_append [simp]: "repliedIds (a @ b) = repliedIds a @ repliedIds b"
  by (induction a rule: repliedIds.induct) simp_all

lemma handedOff_append [simp]: "handedOff (a @ b) = handedOff a @ handedOff b"
  by (induction a rule: handedOff.induct) simp_all

lemma submitted_append [simp]: "submitted (a @ b) = submitted a @ submitted b"
  by (induction a rule: submitted.induct) simp_all

lemma forService_append [simp]: "forService t (a @ b) = forService t a @ forService t b"
  by (simp add: forService_def)

lemma mset_concat_update:
  assumes "w < length xs"
  shows "mset (concat (map f (xs[w := y]))) + mset (f (xs ! w)) =
         mset (concat (map f xs)) + mset (f y)"
  using assms
proof (induction xs arbitrary: w)
  case Nil
  then show ?case by simp
next
  case (Cons x xs)
  then show ?case by (cases w) (simp_all add: ac_simps)
qed

lemma concat_update_same:
  assumes "f y = f (xs ! w)"
  shows "concat (map f (xs[w := y])) = concat (map f xs)"
proof -
  have "map f (xs[w := y]) = (map f xs)[w := f (xs ! w)]"
    by (simp add: map_update assms)
  also have "\<dots> = map f xs"
    by (cases "w < length xs") (simp_all add: list_update_beyond map_update [symmetric] del: map_update)
  finally show ?thesis by simp
qed

lemma heldBy_simps [simp]:
  "heldBy (k\<lparr>rpc := NULL\<rparr>) = []"
  "heldBy (k\<lparr>rpc := Ptr r\<rparr>) = [r]"
  "heldBy (k\<lparr>state := st\<rparr>) = heldBy k"
  "heldBy (k\<lparr>busyIndex := b\<rparr>) = heldBy k"
  "heldBy (k\<lparr>serviceInfo := x\<rparr>) = heldBy k"
  "heldBy (workerMain_step a k) = heldBy k"
  by (simp_all add: heldBy_def)

lemma heldBy_NULL: "rpc k = NULL \<Longrightarrow> heldBy k = []"
  by (simp add: heldBy_def)

lemma queueOf_simps [simp]:
  "queueOf None = []" "queueOf (Some i) = waitingRpcs i"
  "queueOf (map_option (\<lambda>i. i\<lparr>requestsRunning := f i\<rparr>) x) = queueOf x"
  by (simp_all add: queueOf_def split: option.split)

lemma pending_frame:
  assumes "concat (map heldBy (workers s')) = concat (map heldBy (workers s))"
    and "concat (map queueOf (services s')) = concat (map queueOf (services s))"
    and "testRpcs s' = testRpcs s" and "repliedIds (trace s') = repliedIds (trace s)"
  shows "accounted s' = accounted s"
  using assms by (simp add: accounted_def pending_def)

lemma rejectRpc_accounted:
  "accounted (rejectRpc testing s r h) = add_mset (rpcId r) (accounted s)"
  by (simp add: rejectRpc_def accounted_def pending_def split: option.split)

lemma enqueue_accounted:
  assumes "t < length (services s)" and "services s ! t = Some info"
  shows "accounted (updInfo t (\<lambda>i. i\<lparr>waitingRpcs := waitingRpcs i @ [r]\<rparr>) s) =
         add_mset (rpcId r) (accounted s)"
proof -
  from mset_concat_update [OF assms(1), of queueOf "Some (info\<lparr>waitingRpcs := waitingRpcs info @ [r]\<rparr>)"]
  have "mset (concat (map queueOf ((services s)[t := Some (info\<lparr>waitingRpcs := waitingRpcs info @ [r]\<rparr>)]))) =
        add_mset r (mset (concat (map queueOf (services s))))"
    using assms(2) by simp
  then show ?thesis using assms(2) by (simp add: accounted_def pending_def)
qed

lemma startRpc_accounted:
  assumes "startRpc s r t = Inr s'"
    and "idleThreads s \<noteq> [] \<Longrightarrow> last (idleThreads s) < length (workers s) \<and>
           rpc (workers s ! last (idleThreads s)) = NULL"
  shows "accounted s' = add_mset (rpcId r) (accounted s)"
proof (cases "idleThreads s = []")
  case True
  have "heldBy \<lparr>serviceInfo = Some t, rpc = Ptr r,
              busyIndex = int (length (busyThreads s)), state = WORKING, exited = False\<rparr> = [r]"
    by (simp add: heldBy_def)
  with startRpc_new [OF True, of r t] assms(1) show ?thesis
    by (auto simp: accounted_def pending_def concat_update_same)
next
  case False
  let ?w = "last (idleThreads s)"
  from assms(2) False have w: "?w < length (workers s)" "rpc (workers s ! ?w) = NULL" by simp_all
  from mset_concat_update [OF w(1), of heldBy "(workers s ! ?w)\<lparr>serviceInfo := Some t, rpc := Ptr r,
                 state := WORKING, busyIndex := int (length (busyThreads s))\<rparr>"]
  have "mset (concat (map heldBy ((workers s)[?w := (workers s ! ?w)\<lparr>serviceInfo := Some t, rpc := Ptr r,
                 state := WORKING, busyIndex := int (length (busyThreads s))\<rparr>]))) =
        add_mset r (mset (concat (map heldBy (workers s))))"
    using w(2) by (simp add: heldBy_def)
  with startRpc_idle [OF False w, of r t] assms(1) show ?thesis
    by (auto simp: accounted_def pending_def concat_update_same)
qed

lemma handleRpc_accounted:
  assumes inv: "mgr_inv M s" and ok: "handleRpc testing M s r = Inr s'"
  shows "accounted s' = add_mset (rpcId r) (accounted s)"
proof (cases "getStart r = None \<or> M < unat (service (requestHeader r)) \<or>
         services s ! unat (service (requestHeader r)) = None")
  case True
  from handleRpc_epoch [OF ok] True
  have "handleRpc testing M s r = Inr (rejectRpc testing s r (getStart r))"
    by (rule handleRpc_invalid)
  with ok show ?thesis by (auto simp: rejectRpc_accounted)
next
  case False
  then obtain h info where h: "getStart r = Some h"
    and t: "unat (service (requestHeader r)) \<le> M"
    and info: "services s ! unat (service (requestHeader r)) = Some info"
    by auto
  from getStart_Some [OF h] have hh: "h = requestHeader r" .
  let ?t = "unat (service h)"
  from t info hh have t': "?t \<le> M" and info': "services s ! ?t = Some info" by simp_all
  from inv have l: "length (services s) = Suc M" and ix: "indexOk s" and hd: "holdsOk s"
    by (simp_all add: mgr_inv_def)
  note v = handleRpc_valid [OF handleRpc_epoch [OF ok] h t' info', of testing]
  show ?thesis
  proof (cases "maxThreads info \<le> requestsRunning info")
    case True
    from t' l have "?t < length (services s)" by simp
    from enqueue_accounted [OF this info', of r] v True ok show ?thesis by simp
  next
    case False
    with v ok have st: "startRpc s r ?t = Inr s'" by simp
    have "last (idleThreads s) < length (workers s) \<and>
           rpc (workers s ! last (idleThreads s)) = NULL" if "idleThreads s \<noteq> []"
    proof -
      from that have "last (idleThreads s) \<in> set (idleThreads s)" by simp
      with ix have "last (idleThreads s) < length (workers s)"
        "last (idleThreads s) \<notin> set (busyThreads s)" by (auto simp: indexOk_def)
      with hd show ?thesis by (simp add: holdsOk_def)
    qed
    with st show ?thesis by (rule startRpc_accounted)
  qed
qed

lemma pollBody_view:
  assumes inv: "mgr_inv M s" and i: "i < length (busyThreads s)"
  obtains w t info s1 where
    "w = busyThreads s ! i" and "w < length (workers s)"
    and "t \<le> M" and "serviceInfo (workers s ! w) = Some t" and "services s ! t = Some info"
    and "services s1 = services s" and "busyThreads s1 = busyThreads s"
    and "idleThreads s1 = idleThreads s" and "testRpcs s1 = testRpcs s"
    and "workers s1 = (workers s)[w := (workers s ! w)\<lparr>rpc := NULL\<rparr>]"
    and "trace s1 = trace s @ [EvFenceEnter] @
           (case rpc (workers s ! w) of Ptr r \<Rightarrow> [EvSendReply (rpcId r)] | _ \<Rightarrow> [])"
    and "mgr_inv M s1"
    and "pollBody i s =
      (if state (workers s ! w) = WORKING then Inr s
       else if state (workers s ! w) = POSTPROCESSING then Inr s1
       else if waitingRpcs info \<noteq> [] then startNext w t info s1
       else Inr (retire w t s1))"
proof -
  from inv have ix: "indexOk s" and h: "holdsOk s" and c: "countOk M s"
    and l: "length (services s) = Suc M"
    by (simp_all add: mgr_inv_def)
  define w where "w = busyThreads s ! i"
  from ix i have wv: "w < length (workers s)" and bi: "busyIndex (workers s ! w) = int i"
    by (simp_all add: indexOk_def w_def)
  from i have win: "w \<in> set (busyThreads s)" by (simp add: w_def)
  from h wv win have ne: "rpc (workers (emit [EvFenceEnter] s) ! w) \<noteq> WORKER_EXIT"
    by (simp add: holdsOk_def)
  from countOk_busyD [OF c win] obtain t info where t: "t \<le> M"
    and bound: "serviceInfo (workers s ! w) = Some t" and info: "services s ! t = Some info"
    by blast
  from replyIfPending_view [OF ne] obtain s1 where
    r: "replyIfPending w (emit [EvFenceEnter] s) = Inr s1"
    and f: "services s1 = services s" "busyThreads s1 = busyThreads s"
      "idleThreads s1 = idleThreads s"
      "workers s1 = (workers s)[w := (workers s ! w)\<lparr>rpc := NULL\<rparr>]"
      "testRpcs s1 = testRpcs s"
      "trace s1 = trace s @ [EvFenceEnter] @
           (case rpc (workers s ! w) of Ptr r \<Rightarrow> [EvSendReply (rpcId r)] | _ \<Rightarrow> [])"
    by (auto simp: emit_fields)
  have inv1: "mgr_inv M s1" using inv f(2,3,1,4) by (rule clear_inv)
  have bound1: "serviceInfo (workers s1 ! w) = Some t"
    using wv bound by (simp_all add: f(4))
  have body: "pollBody i s =
    (if state (workers s ! w) = WORKING then Inr s
     else if state (workers s ! w) = POSTPROCESSING then Inr s1
     else if waitingRpcs info \<noteq> [] then startNext w t info s1
     else Inr (retire w t s1))"
    using i wv bi r bound1 t l info
    by (simp add: pollBody_def w_def [symmetric] Let_def f(1))
  from that [OF w_def wv t bound info f(1,2,3,5,4,6) inv1 body] show ?thesis .
qed

lemma reply_accounted:
  assumes "w < length (workers s)" and "services s1 = services s" and "testRpcs s1 = testRpcs s"
    and "workers s1 = (workers s)[w := (workers s ! w)\<lparr>rpc := NULL\<rparr>]"
    and "trace s1 = trace s @ [EvFenceEnter] @
           (case rpc (workers s ! w) of Ptr r \<Rightarrow> [EvSendReply (rpcId r)] | _ \<Rightarrow> [])"
  shows "accounted s1 = accounted s"
proof -
  from mset_concat_update [OF assms(1), of heldBy "(workers s ! w)\<lparr>rpc := NULL\<rparr>"]
  have "mset (concat (map heldBy (workers s))) =
        mset (concat (map heldBy (workers s1))) + mset (heldBy (workers s ! w))"
    by (simp add: assms(4))
  then show ?thesis
    by (cases "rpc (workers s ! w)")
      (simp_all add: accounted_def pending_def assms(2,3,5) heldBy_def)
qed

lemma startNext_accounted:
  assumes "w < length (workers s)" and "rpc (workers s ! w) = NULL"
    and "t < length (services s)" and "services s ! t = Some info" and "waitingRpcs info \<noteq> []"
    and "startNext w t info s = Inr s'"
  shows "accounted s' = accounted s"
proof -
  let ?r = "hd (waitingRpcs info)"
  from mset_concat_update [OF assms(1), of heldBy "(workers s ! w)\<lparr>rpc := Ptr ?r, state := WORKING\<rparr>"]
  have a: "mset (concat (map heldBy ((workers s)[w := (workers s ! w)\<lparr>rpc := Ptr ?r, state := WORKING\<rparr>]))) =
        add_mset ?r (mset (concat (map heldBy (workers s))))"
    using assms(2) by (simp add: heldBy_NULL)
  from assms(5) have "mset (waitingRpcs info) = add_mset ?r (mset (tl (waitingRpcs info)))"
    by (cases "waitingRpcs info") simp_all
  with mset_concat_update [OF assms(3), of queueOf "Some (info\<lparr>waitingRpcs := tl (waitingRpcs info)\<rparr>)"]
  have b: "mset (concat (map queueOf (services s))) =
        add_mset ?r (mset (concat (map queueOf ((services s)[t := Some (info\<lparr>waitingRpcs := tl (waitingRpcs info)\<rparr>)]))))"
    using assms(4) by simp
  from startNext_eq [OF assms(1,2), of t info] assms(6) a b assms(4) show ?thesis
    by (auto simp: accounted_def pending_def)
qed

lemma retire_accounted:
  assumes "i < length (busyThreads s)" and "w = busyThreads s ! i"
    and "busyIndex (workers s ! w) = int i"
  shows "accounted (retire w t s) = accounted s"
proof (rule pending_frame)
  note f = retire_fields [OF assms, of t]
  have "map heldBy (workers (retire w t s)) = map heldBy (workers s)"
    by (rule nth_equalityI) (simp_all add: f(7,8))
  then show "concat (map heldBy (workers (retire w t s))) = concat (map heldBy (workers s))"
    by simp
  show "concat (map queueOf (services (retire w t s))) = concat (map queueOf (services s))"
    by (simp add: f(3) concat_update_same)
  show "testRpcs (retire w t s) = testRpcs s" by (rule f(5))
  show "repliedIds (trace (retire w t s)) = repliedIds (trace s)" by (simp add: f(4))
qed

lemma pollBody_accounted:
  assumes inv: "mgr_inv M s" and i: "i < length (busyThreads s)"
    and ok: "pollBody i s = Inr s'"
  shows "accounted s' = accounted s"
proof -
  from pollBody_view [OF inv i] obtain w t info s1 where
    v: "w = busyThreads s ! i" "w < length (workers s)"
    "t \<le> M" "serviceInfo (workers s ! w) = Some t" "services s ! t = Some info"
    "services s1 = services s" "busyThreads s1 = busyThreads s"
    "idleThreads s1 = idleThreads s" "testRpcs s1 = testRpcs s"
    "workers s1 = (workers s)[w := (workers s ! w)\<lparr>rpc := NULL\<rparr>]"
    "trace s1 = trace s @ [EvFenceEnter] @
           (case rpc (workers s ! w) of Ptr r \<Rightarrow> [EvSendReply (rpcId r)] | _ \<Rightarrow> [])"
    "mgr_inv M s1"
    and body: "pollBody i s =
      (if state (workers s ! w) = WORKING then Inr s
       else if state (workers s ! w) = POSTPROCESSING then Inr s1
       else if waitingRpcs info \<noteq> [] then startNext w t info s1
       else Inr (retire w t s1))"
    by blast
  from inv have l: "length (services s) = Suc M" and ix: "indexOk s"
    by (simp_all add: mgr_inv_def)
  have a1: "accounted s1 = accounted s"
    using v(2,6,9,10,11) by (rule reply_accounted)
  have wv1: "w < length (workers s1)" "rpc (workers s1 ! w) = NULL"
    using v(2) by (simp_all add: v(10))
  have bi1: "busyIndex (workers s1 ! w) = int i"
    using ix i v(1,2) by (simp add: v(10) indexOk_def)
  consider (working) "state (workers s ! w) = WORKING"
    | (post) "state (workers s ! w) = POSTPROCESSING"
    | (more) "state (workers s ! w) \<noteq> WORKING" "state (workers s ! w) \<noteq> POSTPROCESSING"
        "waitingRpcs info \<noteq> []"
    | (retired) "state (workers s ! w) \<noteq> WORKING" "state (workers s ! w) \<noteq> POSTPROCESSING"
        "waitingRpcs info = []"
    by blast
  then show ?thesis
  proof cases
    case working
    with body ok show ?thesis by simp
  next
    case post
    with body ok a1 show ?thesis by simp
  next
    case more
    with body ok have st: "startNext w t info s1 = Inr s'" by simp
    have t1: "t < length (services s1)" "services s1 ! t = Some info"
      using v(3,5) l by (simp_all add: v(6))
    from wv1 t1 more(3) st have "accounted s' = accounted s1"
      by (rule startNext_accounted)
    with a1 show ?thesis by simp
  next
    case retired
    with body ok have "s' = retire w t s1" by simp
    moreover have "accounted (retire w t s1) = accounted s1"
      by (rule retire_accounted [where i = i]) (use i v(1) bi1 in \<open>simp_all add: v(7)\<close>)
    ultimately show ?thesis using a1 by simp
  qed
qed

lemma pollFrom_preserves:
  assumes step: "\<And>i s s1. mgr_inv M s \<Longrightarrow> i < length (busyThreads s) \<Longrightarrow>
                   pollBody i s = Inr s1 \<Longrightarrow> f s1 = f s"
    and "mgr_inv M s" and "n \<le> length (busyThreads s)" and "pollFrom n s = Inr s'"
  shows "f s' = f s"
  using assms(2-)
proof (induction n arbitrary: s)
  case 0
  then show ?case by simp
next
  case (Suc n)
  then have n: "n < length (busyThreads s)" by simp
  from pollBody_inv [OF Suc.prems(1) n] obtain s1 where
    s1: "pollBody n s = Inr s1" "mgr_inv M s1" "n \<le> length (busyThreads s1)"
    by blast
  with Suc.prems(3) have "pollFrom n s1 = Inr s'" by simp
  with Suc.IH [OF s1(2,3)] have "f s' = f s1" by simp
  with step [OF Suc.prems(1) n s1(1)] show ?case by simp
qed

lemma poll_accounted:
  assumes "mgr_inv M s" and "poll s = Inr s'"
  shows "accounted s' = accounted s"
  using assms pollFrom_preserves [of M accounted s "length (busyThreads s)" s']
  by (simp add: poll_def pollBody_accounted)



lemma addServices_accounted:
  assumes "addServices M s regs = Inr s'"
  shows "accounted s' = accounted s"
  using assms
proof (induction regs arbitrary: s)
  case Nil
  then show ?case by simp
next
  case (Cons x regs)
  obtain svc t where x: "x = (svc, t)" by (cases x)
  with Cons.prems obtain s1 where s1: "addService M s svc t = Inr s1"
    "addServices M s1 regs = Inr s'"
    by (auto split: sum.splits)
  from s1(1) have free: "services s ! t = None"
    and e: "s1 = s\<lparr>services := (services s)[t := Some (ServiceInfo_construct svc)],
                  serviceCount := serviceCount s + 1\<rparr>"
    by (auto simp: addService_def split: if_splits)
  have "accounted s1 = accounted s"
    by (rule pending_frame)
      (simp_all add: e concat_update_same free ServiceInfo_construct_def)
  with Cons.IH [OF s1(2)] show ?case by simp
qed

lemma startup_accounted:
  assumes "addServices M (ServiceManager_new M) regs = Inr s"
  shows "accounted s = {#}"
proof -
  have "accounted (ServiceManager_new M) = {#}"
    by (simp add: accounted_def pending_def ServiceManager_new_def del: replicate_Suc)
  with addServices_accounted [OF assms] show ?thesis by simp
qed


lemma registered_update:
  "registered (s\<lparr>services := (services s)[t := map_option f (services s ! t)]\<rparr>) = registered s"
proof -
  let ?g = "\<lambda>x::ServiceInfo option. x \<noteq> None"
  have "?g (map_option f (services s ! t)) = ?g (services s ! t)" by simp
  then have "map ?g ((services s)[t := map_option f (services s ! t)]) =
        map ?g ((services s)[t := services s ! t])"
    by (simp only: map_update)
  then show ?thesis by (simp add: registered_def)
qed

lemma registered_frame:
  "services s' = (services s)[t := map_option f (services s ! t)] \<Longrightarrow> registered s' = registered s"
  using registered_update [of s t f] by (simp add: registered_def)

lemma registered_same:
  "services s' = services s \<Longrightarrow> registered s' = registered s"
  by (simp add: registered_def)

lemma registered_nth:
  assumes "registered s' = registered s" and "length (services s) = Suc M" and "t \<le> M"
  shows "(services s' ! t = None) = (services s ! t = None)"
proof -
  let ?g = "\<lambda>x::ServiceInfo option. x \<noteq> None"
  from assms(1) have e: "map ?g (services s') = map ?g (services s)"
    by (simp add: registered_def)
  then have "length (services s') = length (services s)" by (rule map_eq_imp_length_eq)
  with assms(2,3) have l: "t < length (services s')" "t < length (services s)" by simp_all
  from e have "map ?g (services s') ! t = map ?g (services s) ! t" by simp
  then have "?g (services s' ! t) = ?g (services s ! t)"
    by (simp only: nth_map [OF l(1)] nth_map [OF l(2)])
  then show ?thesis by blast
qed

lemma forService_single:
  "forService t [r] = (if getStart r \<noteq> None \<and> unat (service (requestHeader r)) = t then [r] else [])"
  by (simp add: forService_def)

lemma handoff_events [simp]:
  "handedOff ([EvStoreRpc w (Ptr r), EvFenceLeave, EvExchange w st WORKING] @
     (if st = SLEEPING then [EvFutexWake w 1] else [])) = [r]"
  by simp

lemma reply_events [simp]:
  "handedOff (case p of Ptr r \<Rightarrow> [EvSendReply (rpcId r)] | _ \<Rightarrow> []) = []"
  by (cases p) simp_all

lemma handleRpc_served:
  assumes inv: "mgr_inv M s" and t0: "t0 \<le> M" and reg: "services s ! t0 \<noteq> None"
    and ok: "handleRpc testing M s r = Inr s'"
  shows "served t0 s' = served t0 s @ forService t0 [r] \<and> registered s' = registered s"
proof (cases "getStart r = None \<or> M < unat (service (requestHeader r)) \<or>
         services s ! unat (service (requestHeader r)) = None")
  case True
  from handleRpc_epoch [OF ok] True
  have "handleRpc testing M s r = Inr (rejectRpc testing s r (getStart r))"
    by (rule handleRpc_invalid)
  with ok have s': "s' = rejectRpc testing s r (getStart r)" by simp
  from True t0 reg have "forService t0 [r] = []"
    by (auto simp: forService_single)
  then show ?thesis
    by (simp add: s' served_def rejectRpc_def registered_def split: option.split)
next
  case False
  then obtain h info where h: "getStart r = Some h"
    and t: "unat (service (requestHeader r)) \<le> M"
    and info: "services s ! unat (service (requestHeader r)) = Some info"
    by auto
  from getStart_Some [OF h] have hh: "h = requestHeader r" .
  let ?t = "unat (service h)"
  from t info hh have t': "?t \<le> M" and info': "services s ! ?t = Some info" by simp_all
  from inv have l: "length (services s) = Suc M" and ix: "indexOk s" and hd: "holdsOk s"
    and c: "countOk M s"
    by (simp_all add: mgr_inv_def)
  have fs: "forService t0 [r] = (if ?t = t0 then [r] else [])"
    using h hh by (simp add: forService_single)
  note v = handleRpc_valid [OF handleRpc_epoch [OF ok] h t' info', of testing]
  show ?thesis
  proof (cases "maxThreads info \<le> requestsRunning info")
    case True
    with v ok have s': "s' = updInfo ?t (\<lambda>i. i\<lparr>waitingRpcs := waitingRpcs i @ [r]\<rparr>) s"
      by simp
    have "registered s' = registered s"
      by (rule registered_frame [where t = ?t]) (simp add: s')
    moreover have "served t0 s' = served t0 s @ forService t0 [r]"
      using t' l info' t0 by (auto simp: s' served_def fs nth_update_total)
    ultimately show ?thesis by simp
  next
    case False
    with v ok have st: "startRpc s r ?t = Inr s'" by simp
    from False countOkD(3) [OF c t' info'] have q: "waitingRpcs info = []" by auto
    have idle: "last (idleThreads s) < length (workers s) \<and>
           rpc (workers s ! last (idleThreads s)) = NULL" if "idleThreads s \<noteq> []"
    proof -
      from that have "last (idleThreads s) \<in> set (idleThreads s)" by simp
      with ix have "last (idleThreads s) < length (workers s)"
        "last (idleThreads s) \<notin> set (busyThreads s)" by (auto simp: indexOk_def)
      with hd show ?thesis by (simp add: holdsOk_def)
    qed
    have sv: "services s' = (services s)[?t := map_option (\<lambda>i. i\<lparr>requestsRunning := requestsRunning i + 1\<rparr>) (services s ! ?t)]"
      and tr: "handedOff (trace s') = handedOff (trace s) @ [r]"
    proof -
      show "services s' = (services s)[?t := map_option (\<lambda>i. i\<lparr>requestsRunning := requestsRunning i + 1\<rparr>) (services s ! ?t)]"
        using st idle startRpc_new [of s r ?t] startRpc_idle [of s r ?t]
        by (cases "idleThreads s = []") auto
      show "handedOff (trace s') = handedOff (trace s) @ [r]"
        using st idle startRpc_new [of s r ?t] startRpc_idle [of s r ?t]
        by (cases "idleThreads s = []") auto
    qed
    have "registered s' = registered s" using sv by (rule registered_frame)
    moreover have "queueOf (services s' ! t0) = queueOf (services s ! t0)"
      by (simp add: sv nth_update_total)
    moreover have "queueOf (services s ! t0) = []" if "?t = t0"
      using that info' q by simp
    ultimately show ?thesis
      by (auto simp: served_def tr fs)
  qed
qed

lemma pollBody_served:
  assumes inv: "mgr_inv M s" and i: "i < length (busyThreads s)"
    and ok: "pollBody i s = Inr s'"
  shows "(served t0 s', registered s') = (served t0 s, registered s)"
proof -
  from pollBody_view [OF inv i] obtain w t info s1 where
    v: "w = busyThreads s ! i" "w < length (workers s)"
    "t \<le> M" "serviceInfo (workers s ! w) = Some t" "services s ! t = Some info"
    "services s1 = services s" "busyThreads s1 = busyThreads s"
    "idleThreads s1 = idleThreads s" "testRpcs s1 = testRpcs s"
    "workers s1 = (workers s)[w := (workers s ! w)\<lparr>rpc := NULL\<rparr>]"
    "trace s1 = trace s @ [EvFenceEnter] @
           (case rpc (workers s ! w) of Ptr r \<Rightarrow> [EvSendReply (rpcId r)] | _ \<Rightarrow> [])"
    "mgr_inv M s1"
    and body: "pollBody i s =
      (if state (workers s ! w) = WORKING then Inr s
       else if state (workers s ! w) = POSTPROCESSING then Inr s1
       else if waitingRpcs info \<noteq> [] then startNext w t info s1
       else Inr (retire w t s1))"
    by blast
  from inv have l: "length (services s) = Suc M" and ix: "indexOk s" and q: "queueOk M s"
    by (simp_all add: mgr_inv_def)
  have a1: "served t0 s1 = served t0 s" "registered s1 = registered s"
    by (simp_all add: served_def registered_def v(6,11))
  have wv1: "w < length (workers s1)" "rpc (workers s1 ! w) = NULL"
    using v(2) by (simp_all add: v(10))
  have bi1: "busyIndex (workers s1 ! w) = int i"
    using ix i v(1,2) by (simp add: v(10) indexOk_def)
  consider (working) "state (workers s ! w) = WORKING"
    | (post) "state (workers s ! w) = POSTPROCESSING"
    | (more) "state (workers s ! w) \<noteq> WORKING" "state (workers s ! w) \<noteq> POSTPROCESSING"
        "waitingRpcs info \<noteq> []"
    | (retired) "state (workers s ! w) \<noteq> WORKING" "state (workers s ! w) \<noteq> POSTPROCESSING"
        "waitingRpcs info = []"
    by blast
  then show ?thesis
  proof cases
    case working
    with body ok show ?thesis by simp
  next
    case post
    with body ok a1 show ?thesis by simp
  next
    case more
    let ?r = "hd (waitingRpcs info)"
    from more body ok startNext_eq [OF wv1, of t info]
    have sv: "services s' = (services s1)[t := map_option (\<lambda>i. i\<lparr>waitingRpcs := tl (waitingRpcs i)\<rparr>) (services s1 ! t)]"
      and tr: "handedOff (trace s') = handedOff (trace s1) @ [?r]"
      by auto
    from more(3) have "?r \<in> set (waitingRpcs info)" by simp
    from queueOkD [OF q v(3,5) this]
    have fs: "forService t0 [?r] = (if t = t0 then [?r] else [])"
      by (auto simp: forService_single)
    have "registered s' = registered s1" using sv by (rule registered_frame)
    moreover have "served t0 s' = served t0 s1"
      using more(3) v(3,5) l by (auto simp: served_def sv tr fs v(6) nth_update_total)
    ultimately show ?thesis using a1 by simp
  next
    case retired
    with body ok have s': "s' = retire w t s1" by simp
    have i1: "i < length (busyThreads s1)" "w = busyThreads s1 ! i"
      using i v(1) by (simp_all add: v(7))
    note f = retire_fields [OF i1 bi1, of t]
    have "registered s' = registered s1" unfolding s' using f(3) by (rule registered_frame)
    moreover have "served t0 s' = served t0 s1"
      by (simp add: s' served_def f(3,4) nth_update_total)
    ultimately show ?thesis using a1 by simp
  qed
qed

lemma poll_served:
  assumes "mgr_inv M s" and "poll s = Inr s'"
  shows "served t0 s' = served t0 s" and "registered s' = registered s"
proof -
  have "(served t0 s', registered s') = (served t0 s, registered s)"
    using assms pollFrom_preserves [of M "\<lambda>s. (served t0 s, registered s)" s
        "length (busyThreads s)" s'] pollBody_served [of M _ _ _ t0]
    by (simp add: poll_def)
  then show "served t0 s' = served t0 s" and "registered s' = registered s" by simp_all
qed

lemma step_served:
  assumes inv: "mgr_inv M s" and t0: "t0 \<le> M" and reg: "services s ! t0 \<noteq> None"
    and ok: "step testing M s x = Inr s'"
  shows "served t0 s' = served t0 s @ forService t0 (submitted [x]) \<and> registered s' = registered s"
proof (cases x)
  case (HandleRpc r)
  with ok handleRpc_served [OF inv t0 reg, where testing = testing and r = r and s' = s']
  show ?thesis by simp
next
  case Poll
  with ok poll_served(1) [OF inv, of s' t0] poll_served(2) [OF inv, of s'] show ?thesis
    by (simp add: forService_def)
next
  case (WorkerDoes w a)
  with ok show ?thesis by (auto simp: served_def registered_def forService_def split: if_splits)
qed

lemma run_served:
  assumes "mgr_inv M s" and "t0 \<le> M" and "services s ! t0 \<noteq> None"
    and "run testing M s xs = Inr s'"
  shows "served t0 s' = served t0 s @ forService t0 (submitted xs) \<and> registered s' = registered s"
  using assms
proof (induction xs arbitrary: s)
  case Nil
  then show ?case by (simp add: forService_def)
next
  case (Cons x xs)
  from Cons.prems(4) obtain s1 where s1: "step testing M s x = Inr s1"
    "run testing M s1 xs = Inr s'"
    by (auto split: sum.splits)
  from Cons.prems(1) s1(1) have i1: "mgr_inv M s1" by (rule step_Inr_inv)
  from step_served [OF Cons.prems(1-3) s1(1)]
  have a: "served t0 s1 = served t0 s @ forService t0 (submitted [x])"
    and r: "registered s1 = registered s" by simp_all
  from Cons.prems(1) have "length (services s) = Suc M" by (simp add: mgr_inv_def)
  from registered_nth [OF r this Cons.prems(2)] Cons.prems(3)
  have "services s1 ! t0 \<noteq> None" by simp
  from Cons.IH [OF i1 Cons.prems(2) this s1(2)] a r
  have "served t0 s' = served t0 s @ forService t0 (submitted [x]) @ forService t0 (submitted xs)"
    and "registered s' = registered s" by simp_all
  moreover have "submitted (x # xs) = submitted [x] @ submitted xs"
    by (cases x) simp_all
  ultimately show ?case by simp
qed

lemma startup_served:
  assumes "addServices M (ServiceManager_new M) regs = Inr s" and "t \<le> M"
    and "\<forall>(svc, t)\<in>set regs. 0 \<le> threadLimit svc"
  shows "served t s = []"
proof -
  have tr: "trace s' = trace s0" if "addServices M s0 regs = Inr s'" for s0 s'
    using that
  proof (induction regs arbitrary: s0)
    case Nil
    then show ?case by simp
  next
    case (Cons x regs)
    obtain svc u where x: "x = (svc, u)" by (cases x)
    with Cons.prems obtain s1 where s1: "addService M s0 svc u = Inr s1"
      "addServices M s1 regs = Inr s'"
      by (auto split: sum.splits)
    from s1(1) have "trace s1 = trace s0" by (auto simp: addService_def split: if_splits)
    with Cons.IH [OF s1(2)] show ?case by simp
  qed
  from tr [OF assms(1)] have t: "trace s = []" by (simp add: ServiceManager_new_def)
  from startup_accounted [OF assms(1)] have "pending s = []"
    by (simp add: accounted_def)
  then have "\<forall>x\<in>set (services s). queueOf x = []" by (simp add: pending_def)
  moreover from startup_inv [OF assms(1,3)] assms(2) have "t < length (services s)"
    by (simp add: mgr_inv_def)
  ultimately have "queueOf (services s ! t) = []" by simp
  with t show ?thesis by (simp add: served_def forService_def)
qed

lemma foldl_Inl:
  "foldl (\<lambda>acc j. case acc of Inl e \<Rightarrow> Inl e | Inr s1 \<Rightarrow> f j s1) (Inl e) js = Inl e"
  by (induction js) simp_all

lemma pollFrom_foldl:
  "pollFrom n s =
     foldl (\<lambda>acc j. case acc of Inl e \<Rightarrow> Inl e | Inr s1 \<Rightarrow> pollBody j s1) (Inr s) (rev [0..<n])"
proof (induction n arbitrary: s)
  case 0
  then show ?case by simp
next
  case (Suc n)
  show ?case
  proof (cases "pollBody n s")
    case (Inl e)
    then show ?thesis by (simp add: foldl_Inl)
  next
    case (Inr s1)
    with Suc [of s1] show ?thesis by simp
  qed
qed

lemma pollBody_unfold:
  assumes i: "i < length (busyThreads s)" and w: "w = busyThreads s ! i"
    and wv: "w < length (workers s)" and bi: "busyIndex (workers s ! w) = int i"
    and ne: "rpc (workers s ! w) \<noteq> WORKER_EXIT"
  obtains s1 where
    "services s1 = services s" and "busyThreads s1 = busyThreads s"
    and "idleThreads s1 = idleThreads s" and "testRpcs s1 = testRpcs s"
    and "serviceCount s1 = serviceCount s"
    and "workers s1 = (workers s)[w := (workers s ! w)\<lparr>rpc := NULL\<rparr>]"
    and "trace s1 = trace s @ [EvFenceEnter] @
           (case rpc (workers s ! w) of Ptr r \<Rightarrow> [EvSendReply (rpcId r)] | _ \<Rightarrow> [])"
    and "pollBody i s =
      (if state (workers s ! w) = WORKING then Inr s
       else if state (workers s ! w) = POSTPROCESSING then Inr s1
       else (case serviceInfo (workers s ! w) of
               None \<Rightarrow> Inl UndefinedBehaviour
             | Some t \<Rightarrow>
                 if length (services s) \<le> t then Inl UndefinedBehaviour
                 else (case services s ! t of
                         None \<Rightarrow> Inl UndefinedBehaviour
                       | Some info \<Rightarrow>
                           if waitingRpcs info \<noteq> [] then startNext w t info s1
                           else Inr (retire w t s1))))"
proof -
  from ne have "rpc (workers (emit [EvFenceEnter] s) ! w) \<noteq> WORKER_EXIT" by simp
  from replyIfPending_view [OF this] obtain s1 where
    r: "replyIfPending w (emit [EvFenceEnter] s) = Inr s1"
    and f: "services s1 = services s" "busyThreads s1 = busyThreads s"
      "idleThreads s1 = idleThreads s" "testRpcs s1 = testRpcs s"
      "serviceCount s1 = serviceCount s"
      "workers s1 = (workers s)[w := (workers s ! w)\<lparr>rpc := NULL\<rparr>]"
      "trace s1 = trace s @ [EvFenceEnter] @
           (case rpc (workers s ! w) of Ptr r \<Rightarrow> [EvSendReply (rpcId r)] | _ \<Rightarrow> [])"
    by (auto simp: emit_fields)
  have si: "serviceInfo (workers s1 ! w) = serviceInfo (workers s ! w)"
    using wv by (simp add: f(6))
  have "pollBody i s =
      (if state (workers s ! w) = WORKING then Inr s
       else if state (workers s ! w) = POSTPROCESSING then Inr s1
       else (case serviceInfo (workers s ! w) of
               None \<Rightarrow> Inl UndefinedBehaviour
             | Some t \<Rightarrow>
                 if length (services s) \<le> t then Inl UndefinedBehaviour
                 else (case services s ! t of
                         None \<Rightarrow> Inl UndefinedBehaviour
                       | Some info \<Rightarrow>
                           if waitingRpcs info \<noteq> [] then startNext w t info s1
                           else Inr (retire w t s1))))"
    using i wv bi r
    by (simp add: pollBody_def w [symmetric] Let_def f(1) si cong: option.case_cong if_cong)
  with that [OF f] show ?thesis .
qed




subsection \<open>What a call answers\<close>

lemma reply_ids:
  "repliedIds (case p of Ptr r \<Rightarrow> [EvSendReply (rpcId r)] | _ \<Rightarrow> []) =
     (case p of Ptr r \<Rightarrow> [rpcId r] | _ \<Rightarrow> [])"
  by (cases p) simp_all

lemma heldBy_ids:
  "map rpcId (heldBy k) = (case rpc k of Ptr r \<Rightarrow> [rpcId r] | _ \<Rightarrow> [])"
  by (cases "rpc k") (simp_all add: heldBy_def)

lemma pollBody_replies:
  assumes inv: "mgr_inv M s" and i: "i < length (busyThreads s)"
    and ok: "pollBody i s = Inr s'"
  shows "repliedIds (trace s') = repliedIds (trace s) @ due s (busyThreads s ! i)"
    and "take i (busyThreads s') = take i (busyThreads s)"
    and "\<And>v. v \<in> set (take i (busyThreads s)) \<Longrightarrow> due s' v = due s v"
    and "\<And>j. (\<And>j. i < j \<Longrightarrow> j < length (busyThreads s) \<Longrightarrow> due s (busyThreads s ! j) = [])
       \<Longrightarrow> i \<le> j \<Longrightarrow> j < length (busyThreads s') \<Longrightarrow> due s' (busyThreads s' ! j) = []"
proof -
  from pollBody_view [OF inv i] obtain w t info s1 where
    v: "w = busyThreads s ! i" "w < length (workers s)"
    "t \<le> M" "serviceInfo (workers s ! w) = Some t" "services s ! t = Some info"
    "services s1 = services s" "busyThreads s1 = busyThreads s"
    "idleThreads s1 = idleThreads s" "testRpcs s1 = testRpcs s"
    "workers s1 = (workers s)[w := (workers s ! w)\<lparr>rpc := NULL\<rparr>]"
    "trace s1 = trace s @ [EvFenceEnter] @
           (case rpc (workers s ! w) of Ptr r \<Rightarrow> [EvSendReply (rpcId r)] | _ \<Rightarrow> [])"
    "mgr_inv M s1"
    and body: "pollBody i s =
      (if state (workers s ! w) = WORKING then Inr s
       else if state (workers s ! w) = POSTPROCESSING then Inr s1
       else if waitingRpcs info \<noteq> [] then startNext w t info s1
       else Inr (retire w t s1))"
    by blast
  from inv have ix: "indexOk s" by (simp add: mgr_inv_def)
  have d: "distinct (busyThreads s)" using ix by (rule indexOk_distinct)
  have r1: "repliedIds (trace s1) = repliedIds (trace s) @ map rpcId (heldBy (workers s ! w))"
    by (simp add: v(11) reply_ids heldBy_ids)
  have wv1: "w < length (workers s1)" "rpc (workers s1 ! w) = NULL"
    using v(2) by (simp_all add: v(10))
  have bi1: "busyIndex (workers s1 ! w) = int i"
    using ix i v(1,2) by (simp add: v(10) indexOk_def)
  have i1: "i < length (busyThreads s1)" "w = busyThreads s1 ! i"
    using i v(1) by (simp_all add: v(7))
  have other: "u \<noteq> w" if "u \<in> set (take i (busyThreads s))" for u
  proof -
    from that obtain j where j: "j < i" "busyThreads s ! j = u"
      by (auto simp: in_set_conv_nth)
    with i d v(1) show ?thesis by (auto simp: nth_eq_iff_index_eq)
  qed
  note f = retire_fields [OF i1 bi1, of t]
  consider (working) "state (workers s ! w) = WORKING"
    | (post) "state (workers s ! w) = POSTPROCESSING"
    | (more) "state (workers s ! w) \<noteq> WORKING" "state (workers s ! w) \<noteq> POSTPROCESSING"
        "waitingRpcs info \<noteq> []"
    | (retired) "state (workers s ! w) \<noteq> WORKING" "state (workers s ! w) \<noteq> POSTPROCESSING"
        "waitingRpcs info = []"
    by blast
  then have "repliedIds (trace s') = repliedIds (trace s) @ due s w \<and>
      take i (busyThreads s') = take i (busyThreads s) \<and>
      (\<forall>u. u \<noteq> w \<longrightarrow> state (workers s' ! u) = state (workers s ! u) \<and>
          heldBy (workers s' ! u) = heldBy (workers s ! u)) \<and>
      (busyThreads s' = busyThreads s \<and> due s' w = [] \<or>
       busyThreads s' = butlast ((busyThreads s)[i := last (busyThreads s)]))"
  proof cases
    case working
    with body ok show ?thesis by (simp add: due_def)
  next
    case post
    with body ok r1 v(2) show ?thesis by (auto simp: due_def v(7,10) nth_update_total heldBy_def)
  next
    case more
    from more body ok startNext_eq [OF wv1, of t info]
    have "trace s' = trace s1 @ [EvStoreRpc w (Ptr (hd (waitingRpcs info))), EvFenceLeave,
              EvExchange w (state (workers s1 ! w)) WORKING] @
              (if state (workers s1 ! w) = SLEEPING then [EvFutexWake w 1] else [])"
      and "busyThreads s' = busyThreads s1"
      and "workers s' = (workers s1)[w := (workers s1 ! w)\<lparr>rpc := Ptr (hd (waitingRpcs info)), state := WORKING\<rparr>]"
      by auto
    with more r1 v(2) show ?thesis by (auto simp: due_def v(7,10) nth_update_total)
  next
    case retired
    with body ok have s': "s' = retire w t s1" by simp
    have "take i (busyThreads s') = take i (busyThreads s)"
      using i by (simp add: s' f(1) v(7) take_butlast)
    moreover have "state (workers s' ! u) = state (workers s ! u) \<and>
          heldBy (workers s' ! u) = heldBy (workers s ! u)" if "u \<noteq> w" for u
      using that by (simp add: s' f(8) v(10) nth_update_total)
    ultimately show ?thesis using retired r1 by (simp add: s' f(1,4) v(7) due_def)
  qed
  then have r: "repliedIds (trace s') = repliedIds (trace s) @ due s w"
    and tk: "take i (busyThreads s') = take i (busyThreads s)"
    and fr: "\<And>u. u \<noteq> w \<Longrightarrow> due s' u = due s u"
    and sh: "busyThreads s' = busyThreads s \<and> due s' w = [] \<or>
       busyThreads s' = butlast ((busyThreads s)[i := last (busyThreads s)])"
    by (auto simp: due_def)
  from r show "repliedIds (trace s') = repliedIds (trace s) @ due s (busyThreads s ! i)"
    by (simp only: v(1))
  from tk show "take i (busyThreads s') = take i (busyThreads s)" .
  show "due s' u = due s u" if "u \<in> set (take i (busyThreads s))" for u
    using other [OF that] by (rule fr)
  show "due s' (busyThreads s' ! j) = []"
    if a: "\<And>j. i < j \<Longrightarrow> j < length (busyThreads s) \<Longrightarrow> due s (busyThreads s ! j) = []"
      and j: "i \<le> j" "j < length (busyThreads s')" for j
  proof -
    have up: "due s' (busyThreads s ! k) = []" if k: "i < k" "k < length (busyThreads s)" for k
    proof -
      from k i d have "busyThreads s ! k \<noteq> busyThreads s ! i"
        by (simp add: nth_eq_iff_index_eq)
      then have "due s' (busyThreads s ! k) = due s (busyThreads s ! k)"
        by (simp only: fr v(1) not_False_eq_True)
      with a [OF k] show ?thesis by simp
    qed
    from sh show ?thesis
    proof
      assume same: "busyThreads s' = busyThreads s \<and> due s' w = []"
      show ?thesis
      proof (cases "j = i")
        case True
        with same show ?thesis by (simp add: v(1))
      next
        case False
        with j same up [of j] show ?thesis by simp
      qed
    next
      assume rm: "busyThreads s' = butlast ((busyThreads s)[i := last (busyThreads s)])"
      with j(2) have jl: "j < length (busyThreads s) - 1" by simp
      with rm have nth: "busyThreads s' ! j = (if j = i then last (busyThreads s) else busyThreads s ! j)"
        by (simp add: swap_remove_nth)
      show ?thesis
      proof (cases "j = i")
        case True
        from jl True have "i < length (busyThreads s) - 1" by simp
        moreover have "last (busyThreads s) = busyThreads s ! (length (busyThreads s) - 1)"
          using i by (cases "busyThreads s = []") (simp_all add: last_conv_nth)
        ultimately show ?thesis using nth True up [of "length (busyThreads s) - 1"] by simp
      next
        case False
        with j jl nth up [of j] show ?thesis by simp
      qed
    qed
  qed
qed

lemma pollFrom_replies:
  assumes "mgr_inv M s" and "n \<le> length (busyThreads s)" and "pollFrom n s = Inr s'"
  shows "repliedIds (trace s') =
         repliedIds (trace s) @ concat (map (due s) (rev (take n (busyThreads s))))"
  using assms
proof (induction n arbitrary: s)
  case 0
  then show ?case by simp
next
  case (Suc n)
  then have n: "n < length (busyThreads s)" by simp
  from pollBody_inv [OF Suc.prems(1) n] obtain s1 where
    s1: "pollBody n s = Inr s1" "mgr_inv M s1" "n \<le> length (busyThreads s1)"
    by blast
  with Suc.prems(3) have p: "pollFrom n s1 = Inr s'" by simp
  note b = pollBody_replies [OF Suc.prems(1) n s1(1)]
  have "map (due s1) (rev (take n (busyThreads s))) = map (due s) (rev (take n (busyThreads s)))"
    by (rule map_cong) (simp_all add: b(3))
  with Suc.IH [OF s1(2,3) p] b(1,2)
  have "repliedIds (trace s') = repliedIds (trace s) @ due s (busyThreads s ! n) @
      concat (map (due s) (rev (take n (busyThreads s))))"
    by simp
  then show ?case using n by (simp add: take_Suc_conv_app_nth)
qed

lemma poll_replies:
  assumes "mgr_inv M s"
  shows "\<exists>s'. poll s = Inr s' \<and>
     repliedIds (trace s') = repliedIds (trace s) @ concat (map (due s) (rev (busyThreads s)))"
proof -
  from poll_inv [OF assms] obtain s' where s': "poll s = Inr s'" by blast
  then have "pollFrom (length (busyThreads s)) s = Inr s'" by (simp add: poll_def)
  from pollFrom_replies [OF assms _ this] s' show ?thesis by simp
qed

lemma pollFrom_settled:
  assumes "mgr_inv M s" and "n \<le> length (busyThreads s)" and "pollFrom n s = Inr s'"
    and "\<And>j. n \<le> j \<Longrightarrow> j < length (busyThreads s) \<Longrightarrow> due s (busyThreads s ! j) = []"
  shows "j < length (busyThreads s') \<Longrightarrow> due s' (busyThreads s' ! j) = []"
  using assms
proof (induction n arbitrary: s)
  case 0
  then show ?case by simp
next
  case (Suc n)
  then have n: "n < length (busyThreads s)" by simp
  from pollBody_inv [OF Suc.prems(2) n] obtain s1 where
    s1: "pollBody n s = Inr s1" "mgr_inv M s1" "n \<le> length (busyThreads s1)"
    by blast
  with Suc.prems(4) have p: "pollFrom n s1 = Inr s'" by simp
  have "due s1 (busyThreads s1 ! k) = []" if "n \<le> k" "k < length (busyThreads s1)" for k
    using that by (rule pollBody_replies(4) [OF Suc.prems(2) n s1(1), rotated]) (simp add: Suc.prems(5))
  with Suc.IH [OF Suc.prems(1) s1(2,3) p] show ?case by blast
qed

lemma poll_settled:
  assumes "mgr_inv M s" and "poll s = Inr s'"
  shows "concat (map (due s') (rev (busyThreads s'))) = []"
proof -
  from assms(2) have "pollFrom (length (busyThreads s)) s = Inr s'" by (simp add: poll_def)
  from pollFrom_settled [OF assms(1) _ this]
  have "due s' (busyThreads s' ! j) = []" if "j < length (busyThreads s')" for j
    using that by simp
  then have "\<forall>u\<in>set (busyThreads s'). due s' u = []"
    by (auto simp: in_set_conv_nth)
  then show ?thesis by simp
qed

lemma poll_twice:
  assumes "mgr_inv M s"
  shows "\<exists>s1 s2. poll s = Inr s1 \<and>
     repliedIds (trace s1) = repliedIds (trace s) @ concat (map (due s) (rev (busyThreads s))) \<and>
     mset (map rpcId (pending s)) =
       mset (map rpcId (pending s1)) + mset (concat (map (due s) (rev (busyThreads s)))) \<and>
     poll s1 = Inr s2 \<and> repliedIds (trace s2) = repliedIds (trace s1)"
proof -
  from poll_replies [OF assms] obtain s1 where s1: "poll s = Inr s1"
    "repliedIds (trace s1) = repliedIds (trace s) @ concat (map (due s) (rev (busyThreads s)))"
    by blast
  from poll_inv [OF assms] s1(1) have inv1: "mgr_inv M s1" by auto
  from poll_replies [OF inv1] obtain s2 where s2: "poll s1 = Inr s2"
    "repliedIds (trace s2) = repliedIds (trace s1) @ concat (map (due s1) (rev (busyThreads s1)))"
    by blast
  from poll_settled [OF assms s1(1)] s2(2) have q: "repliedIds (trace s2) = repliedIds (trace s1)"
    by simp
  from poll_accounted [OF assms s1(1)] have "accounted s1 = accounted s" .
  then have "mset (map rpcId (pending s1)) + mset (repliedIds (trace s1)) =
             mset (map rpcId (pending s)) + mset (repliedIds (trace s))"
    by (simp add: accounted_def)
  with s1(2) have "mset (map rpcId (pending s)) =
       mset (map rpcId (pending s1)) + mset (concat (map (due s) (rev (busyThreads s))))"
    by simp
  with s1 s2(1) q show ?thesis by blast
qed

lemma handleRpc_error_path:
  assumes "epochIsSet r"
    and "getStart r = None \<or> M < unat (service (requestHeader r)) \<or>
         services s ! unat (service (requestHeader r)) = None"
  shows "handleRpc testing M s r =
     Inr (if testing \<and> serviceCount s = 0 then s\<lparr>testRpcs := testRpcs s @ [r]\<rparr>
          else s\<lparr>trace := trace s @ [EvPrepareErrorResponse (rpcId r)
                   (if getStart r = None then STATUS_MESSAGE_TOO_SHORT
                    else STATUS_SERVICE_NOT_AVAILABLE), EvSendReply (rpcId r)]\<rparr>)"
  using handleRpc_invalid [OF assms, of testing]
  by (auto simp: rejectRpc_def emit_def split: option.splits)

lemma handleRpc_admitted:
  assumes inv: "mgr_inv M s" and ep: "epochIsSet r" and h: "getStart r = Some h"
    and t: "unat (service h) \<le> M" and info: "services s ! unat (service h) = Some info"
  shows "\<exists>s1. handleRpc testing M s r = Inr s1 \<and> repliedIds (trace s1) = repliedIds (trace s) \<and>
     mset (map rpcId (pending s1)) = add_mset (rpcId r) (mset (map rpcId (pending s)))"
proof -
  from handleRpc_inv [OF inv ep, of testing] obtain s1 where
    s1: "handleRpc testing M s r = Inr s1" by blast
  from inv have ix: "indexOk s" and hd: "holdsOk s" by (simp_all add: mgr_inv_def)
  note v = handleRpc_valid [OF ep h t info, of testing]
  have tr: "repliedIds (trace s1) = repliedIds (trace s)"
  proof (cases "maxThreads info \<le> requestsRunning info")
    case True
    with v s1 show ?thesis by auto
  next
    case False
    with v s1 have st: "startRpc s r (unat (service h)) = Inr s1" by simp
    show ?thesis
    proof (cases "idleThreads s = []")
      case True
      from startRpc_new [OF True, of r "unat (service h)"] st show ?thesis by auto
    next
      case False
      let ?w = "last (idleThreads s)"
      from st have "?w < length (workers s) \<and> rpc (workers s ! ?w) = NULL"
        using False by (auto simp: startRpc_def handoff_def Let_def updWorker_def updInfo_def
            split: if_splits)
      with startRpc_idle [OF False, of r "unat (service h)"] st show ?thesis by auto
    qed
  qed
  from handleRpc_accounted [OF inv s1]
  have "mset (map rpcId (pending s1)) + mset (repliedIds (trace s1)) =
        add_mset (rpcId r) (mset (map rpcId (pending s)) + mset (repliedIds (trace s)))"
    by (simp add: accounted_def)
  with tr have "mset (map rpcId (pending s1)) = add_mset (rpcId r) (mset (map rpcId (pending s)))"
    by simp
  with s1 tr show ?thesis by blast
qed


section \<open>Properties of the dispatcher\<close>

text \<open>
  C1. A well-formed request for a registered service: at the cap it is appended to the
  service's queue and nothing else changes; below the cap the running count goes up by one
  and the request is handed to the last idle worker, or to a new worker when none is idle;
  that worker is bound to the service, gets the previous length of \<open>busyThreads\<close> as
  its \<open>busyIndex\<close> and is appended to \<open>busyThreads\<close>.
\<close>

theorem handleRpc_admits:
  assumes "epochIsSet r" and "getStart r = Some h" and "t = unat (service h)"
    and "t \<le> M" and "length (services s) = Suc M" and "services s ! t = Some info"
  shows
    "(maxThreads info \<le> requestsRunning info \<longrightarrow>
        handleRpc testing M s r =
          Inr (s\<lparr>services := (services s)[t := Some (info\<lparr>waitingRpcs := waitingRpcs info @ [r]\<rparr>)]\<rparr>)) \<and>
     (requestsRunning info < maxThreads info \<and> idleThreads s = [] \<longrightarrow>
        (\<exists>s'. handleRpc testing M s r = Inr s' \<and>
           services s' = (services s)[t := Some (info\<lparr>requestsRunning := requestsRunning info + 1\<rparr>)] \<and>
           workers s' = workers s @ [\<lparr>serviceInfo = Some t, rpc = Ptr r,
              busyIndex = int (length (busyThreads s)), state = WORKING, exited = False\<rparr>] \<and>
           busyThreads s' = busyThreads s @ [length (workers s)] \<and>
           idleThreads s' = [] \<and>
           trace s' = trace s @ [EvStoreRpc (length (workers s)) (Ptr r), EvFenceLeave,
              EvExchange (length (workers s)) POLLING WORKING] \<and>
           serviceCount s' = serviceCount s \<and> testRpcs s' = testRpcs s)) \<and>
     (requestsRunning info < maxThreads info \<and> idleThreads s \<noteq> [] \<and>
      last (idleThreads s) < length (workers s) \<and>
      rpc (workers s ! last (idleThreads s)) = NULL \<longrightarrow>
        (\<exists>s'. handleRpc testing M s r = Inr s' \<and>
           services s' = (services s)[t := Some (info\<lparr>requestsRunning := requestsRunning info + 1\<rparr>)] \<and>
           idleThreads s' = butlast (idleThreads s) \<and>
           workers s' = (workers s)[last (idleThreads s) :=
              (workers s ! last (idleThreads s))\<lparr>serviceInfo := Some t, rpc := Ptr r,
                 state := WORKING, busyIndex := int (length (busyThreads s))\<rparr>] \<and>
           busyThreads s' = busyThreads s @ [last (idleThreads s)] \<and>
           trace s' = trace s @ [EvStoreRpc (last (idleThreads s)) (Ptr r), EvFenceLeave,
              EvExchange (last (idleThreads s)) (state (workers s ! last (idleThreads s))) WORKING] @
              (if state (workers s ! last (idleThreads s)) = SLEEPING
               then [EvFutexWake (last (idleThreads s)) 1] else []) \<and>
           serviceCount s' = serviceCount s \<and> testRpcs s' = testRpcs s))"
proof -
  from assms have valid: "handleRpc testing M s r =
     (if maxThreads info \<le> requestsRunning info
      then Inr (updInfo t (\<lambda>i. i\<lparr>waitingRpcs := waitingRpcs i @ [r]\<rparr>) s)
      else startRpc s r t)"
    by (simp add: handleRpc_valid)
  have queued: "maxThreads info \<le> requestsRunning info \<longrightarrow>
        handleRpc testing M s r =
          Inr (s\<lparr>services := (services s)[t := Some (info\<lparr>waitingRpcs := waitingRpcs info @ [r]\<rparr>)]\<rparr>)"
    using assms(6) by (simp add: valid updInfo_def)
  have fresh: "requestsRunning info < maxThreads info \<and> idleThreads s = [] \<longrightarrow>
        (\<exists>s'. handleRpc testing M s r = Inr s' \<and>
           services s' = (services s)[t := Some (info\<lparr>requestsRunning := requestsRunning info + 1\<rparr>)] \<and>
           workers s' = workers s @ [\<lparr>serviceInfo = Some t, rpc = Ptr r,
              busyIndex = int (length (busyThreads s)), state = WORKING, exited = False\<rparr>] \<and>
           busyThreads s' = busyThreads s @ [length (workers s)] \<and>
           idleThreads s' = [] \<and>
           trace s' = trace s @ [EvStoreRpc (length (workers s)) (Ptr r), EvFenceLeave,
              EvExchange (length (workers s)) POLLING WORKING] \<and>
           serviceCount s' = serviceCount s \<and> testRpcs s' = testRpcs s)"
    using assms(6) by (simp add: valid startRpc_new)
  have reused: "requestsRunning info < maxThreads info \<and> idleThreads s \<noteq> [] \<and>
      last (idleThreads s) < length (workers s) \<and>
      rpc (workers s ! last (idleThreads s)) = NULL \<longrightarrow>
        (\<exists>s'. handleRpc testing M s r = Inr s' \<and>
           services s' = (services s)[t := Some (info\<lparr>requestsRunning := requestsRunning info + 1\<rparr>)] \<and>
           idleThreads s' = butlast (idleThreads s) \<and>
           workers s' = (workers s)[last (idleThreads s) :=
              (workers s ! last (idleThreads s))\<lparr>serviceInfo := Some t, rpc := Ptr r,
                 state := WORKING, busyIndex := int (length (busyThreads s))\<rparr>] \<and>
           busyThreads s' = busyThreads s @ [last (idleThreads s)] \<and>
           trace s' = trace s @ [EvStoreRpc (last (idleThreads s)) (Ptr r), EvFenceLeave,
              EvExchange (last (idleThreads s)) (state (workers s ! last (idleThreads s))) WORKING] @
              (if state (workers s ! last (idleThreads s)) = SLEEPING
               then [EvFutexWake (last (idleThreads s)) 1] else []) \<and>
           serviceCount s' = serviceCount s \<and> testRpcs s' = testRpcs s)"
    using assms(6) by (simp add: valid startRpc_idle)
  from queued fresh reused show ?thesis by blast
qed

theorem handleRpc_admits_witness:
  "epochIsSet (demoRpc 10 8 1) \<and>
   getStart (demoRpc 10 8 1) = Some \<lparr>service = 1, opcode = 7\<rparr> \<and>
   (1::nat) = unat (service \<lparr>service = 1, opcode = 7\<rparr>) \<and> (1::nat) \<le> 2 \<and>
   length (services demoStart) = Suc 2 \<and>
   services demoStart ! 1 = Some (ServiceInfo_construct (demoService 1)) \<and>
   requestsRunning (ServiceInfo_construct (demoService 1)) <
     maxThreads (ServiceInfo_construct (demoService 1)) \<and>
   idleThreads demoStart = [] \<and>
   (\<exists>s'. handleRpc True 2 demoStart (demoRpc 10 8 1) = Inr s' \<and>
      busyThreads s' = [0] \<and>
      workers s' = [\<lparr>serviceInfo = Some 1, rpc = Ptr (demoRpc 10 8 1), busyIndex = 0,
                       state = WORKING, exited = False\<rparr>]) \<and>
   (\<exists>s'. handleRpc True 2 demoIdle (demoRpc 10 8 1) = Inr s' \<and>
      busyThreads s' = [0] \<and> idleThreads s' = [] \<and>
      workers s' = [\<lparr>serviceInfo = Some 1, rpc = Ptr (demoRpc 10 8 1), busyIndex = 0,
                       state = WORKING, exited = False\<rparr>] \<and>
      trace s' = [EvStoreRpc 0 (Ptr (demoRpc 10 8 1)), EvFenceLeave,
        EvExchange 0 SLEEPING WORKING, EvFutexWake 0 1]) \<and>
   handleRpc True 2 demoMid (demoRpc 12 8 1) =
     Inr (demoMid\<lparr>services := [None, Some \<lparr>serviceHandler = demoService 1, maxThreads = 1,
         requestsRunning = 1, waitingRpcs = [demoRpc 12 8 1]\<rparr>, None]\<rparr>)"
proof -
  have h: "epochIsSet (demoRpc 10 8 1)"
    "getStart (demoRpc 10 8 1) = Some \<lparr>service = 1, opcode = 7\<rparr>"
    "(1::nat) = unat (service \<lparr>service = 1, opcode = 7\<rparr>)" "(1::nat) \<le> 2"
    "length (services demoStart) = Suc 2"
    "services demoStart ! 1 = Some (ServiceInfo_construct (demoService 1))"
    by (simp_all add: demoStart_def)
  have g: "requestsRunning (ServiceInfo_construct (demoService 1)) <
     maxThreads (ServiceInfo_construct (demoService 1))" "idleThreads demoStart = []"
    by (simp_all add: demoStart_def ServiceInfo_construct_def demoService_def)
  from handleRpc_admits [OF h, of True] g
  have fresh: "\<exists>s'. handleRpc True 2 demoStart (demoRpc 10 8 1) = Inr s' \<and>
      busyThreads s' = [0] \<and>
      workers s' = [\<lparr>serviceInfo = Some 1, rpc = Ptr (demoRpc 10 8 1), busyIndex = 0,
                       state = WORKING, exited = False\<rparr>]"
    by (auto simp: demoStart_def)
  have i: "length (services demoIdle) = Suc 2"
    "services demoIdle ! 1 = Some \<lparr>serviceHandler = demoService 1, maxThreads = 1,
         requestsRunning = 0, waitingRpcs = []\<rparr>"
    by (simp_all add: demoIdle_def)
  from handleRpc_admits [OF h(1-4) i, of True]
  have reused: "\<exists>s'. handleRpc True 2 demoIdle (demoRpc 10 8 1) = Inr s' \<and>
      busyThreads s' = [0] \<and> idleThreads s' = [] \<and>
      workers s' = [\<lparr>serviceInfo = Some 1, rpc = Ptr (demoRpc 10 8 1), busyIndex = 0,
                       state = WORKING, exited = False\<rparr>] \<and>
      trace s' = [EvStoreRpc 0 (Ptr (demoRpc 10 8 1)), EvFenceLeave,
        EvExchange 0 SLEEPING WORKING, EvFutexWake 0 1]"
    by (auto simp: demoIdle_def)
  have k: "epochIsSet (demoRpc 12 8 1)"
    "getStart (demoRpc 12 8 1) = Some \<lparr>service = 1, opcode = 7\<rparr>"
    "length (services demoMid) = Suc 2"
    "services demoMid ! 1 = Some \<lparr>serviceHandler = demoService 1, maxThreads = 1,
         requestsRunning = 1, waitingRpcs = []\<rparr>"
    by (simp_all add: demoMid_def)
  from handleRpc_admits [OF k(1,2) h(3,4) k(3,4), of True]
  have queued: "handleRpc True 2 demoMid (demoRpc 12 8 1) =
     Inr (demoMid\<lparr>services := [None, Some \<lparr>serviceHandler = demoService 1, maxThreads = 1,
         requestsRunning = 1, waitingRpcs = [demoRpc 12 8 1]\<rparr>, None]\<rparr>)"
    by (simp add: demoMid_def)
  from h g fresh reused queued show ?thesis by blast
qed

text \<open>
  C2. A request too short to hold a header is answered at once with
  \<open>STATUS_MESSAGE_TOO_SHORT\<close>, one whose service tag is above \<open>MAX_SERVICE\<close> or names
  an empty slot with \<open>STATUS_SERVICE_NOT_AVAILABLE\<close>; the reply is sent before
  \<open>handleRpc\<close> returns and nothing else in the dispatcher changes, so no worker and no
  queue ever holds the request. When the build is a testing build and no service is
  registered, the request goes to \<open>testRpcs\<close> instead and no reply is sent.
\<close>

theorem handleRpc_rejects:
  assumes "epochIsSet r"
  shows
    "(requestLength r < sizeof_RpcRequestCommon \<and> \<not> (testing \<and> serviceCount s = 0) \<longrightarrow>
        handleRpc testing M s r =
          Inr (s\<lparr>trace := trace s @
                 [EvPrepareErrorResponse (rpcId r) STATUS_MESSAGE_TOO_SHORT,
                  EvSendReply (rpcId r)]\<rparr>)) \<and>
     (sizeof_RpcRequestCommon \<le> requestLength r \<and>
      (M < unat (service (requestHeader r)) \<or>
       services s ! unat (service (requestHeader r)) = None) \<and>
      \<not> (testing \<and> serviceCount s = 0) \<longrightarrow>
        handleRpc testing M s r =
          Inr (s\<lparr>trace := trace s @
                 [EvPrepareErrorResponse (rpcId r) STATUS_SERVICE_NOT_AVAILABLE,
                  EvSendReply (rpcId r)]\<rparr>)) \<and>
     ((requestLength r < sizeof_RpcRequestCommon \<or>
       M < unat (service (requestHeader r)) \<or>
       services s ! unat (service (requestHeader r)) = None) \<and>
      testing \<and> serviceCount s = 0 \<longrightarrow>
        handleRpc testing M s r = Inr (s\<lparr>testRpcs := testRpcs s @ [r]\<rparr>))"
proof -
  have inv: "getStart r = None \<or> M < unat (service (requestHeader r)) \<or>
         services s ! unat (service (requestHeader r)) = None \<Longrightarrow>
       handleRpc testing M s r = Inr (rejectRpc testing s r (getStart r))"
    using assms by (rule handleRpc_invalid)
  have short: "requestLength r < sizeof_RpcRequestCommon \<Longrightarrow> getStart r = None"
    by (simp add: getStart_def)
  have long: "sizeof_RpcRequestCommon \<le> requestLength r \<Longrightarrow>
      getStart r = Some (requestHeader r)"
    by (simp add: getStart_def)
  show ?thesis
  proof (intro conjI impI)
    assume a: "requestLength r < sizeof_RpcRequestCommon \<and> \<not> (testing \<and> serviceCount s = 0)"
    then show "handleRpc testing M s r =
          Inr (s\<lparr>trace := trace s @
                 [EvPrepareErrorResponse (rpcId r) STATUS_MESSAGE_TOO_SHORT,
                  EvSendReply (rpcId r)]\<rparr>)"
      using inv short by (auto simp: rejectRpc_def emit_def)
  next
    assume a: "sizeof_RpcRequestCommon \<le> requestLength r \<and>
      (M < unat (service (requestHeader r)) \<or>
       services s ! unat (service (requestHeader r)) = None) \<and>
      \<not> (testing \<and> serviceCount s = 0)"
    then show "handleRpc testing M s r =
          Inr (s\<lparr>trace := trace s @
                 [EvPrepareErrorResponse (rpcId r) STATUS_SERVICE_NOT_AVAILABLE,
                  EvSendReply (rpcId r)]\<rparr>)"
      using inv long by (auto simp: rejectRpc_def emit_def)
  next
    assume a: "(requestLength r < sizeof_RpcRequestCommon \<or>
       M < unat (service (requestHeader r)) \<or>
       services s ! unat (service (requestHeader r)) = None) \<and>
      testing \<and> serviceCount s = 0"
    then show "handleRpc testing M s r = Inr (s\<lparr>testRpcs := testRpcs s @ [r]\<rparr>)"
      using inv short by (auto simp: rejectRpc_def)
  qed
qed

theorem handleRpc_rejects_witness:
  "epochIsSet (demoRpc 11 1 1) \<and> epochIsSet (demoRpc 12 8 5) \<and>
   handleRpc False 2 demoStart (demoRpc 11 1 1) =
     Inr (demoStart\<lparr>trace := [EvPrepareErrorResponse 11 STATUS_MESSAGE_TOO_SHORT, EvSendReply 11]\<rparr>) \<and>
   handleRpc True 2 demoStart (demoRpc 12 8 5) =
     Inr (demoStart\<lparr>trace := [EvPrepareErrorResponse 12 STATUS_SERVICE_NOT_AVAILABLE, EvSendReply 12]\<rparr>) \<and>
   handleRpc True 2 (ServiceManager_new 2) (demoRpc 12 8 5) =
     Inr ((ServiceManager_new 2)\<lparr>testRpcs := [demoRpc 12 8 5]\<rparr>)"
proof -
  have h: "epochIsSet (demoRpc 11 1 1)" "epochIsSet (demoRpc 12 8 5)" by simp_all
  from handleRpc_rejects [OF h(1), of False demoStart 2]
    handleRpc_rejects [OF h(2), of True demoStart 2]
    handleRpc_rejects [OF h(2), of True "ServiceManager_new 2" 2]
  show ?thesis
    by (simp add: demoStart_def ServiceManager_new_def sizeof_RpcRequestCommon_def)
qed

text \<open>
  C3. \<open>poll\<close> visits the indices of \<open>busyThreads\<close> from the last one down to 0.
  At a visited worker \<open>w\<close> (the one at index \<open>i\<close>, whose \<open>busyIndex\<close> is \<open>i\<close>):
  a \<open>WORKING\<close> worker is left as it is. Otherwise a request the worker still holds is
  answered and the pointer cleared. A \<open>POSTPROCESSING\<close> worker then stays in
  \<open>busyThreads\<close>. Any other worker gets the head of its service's queue, if there is
  one, and stays busy; if the queue is empty, the last element of \<open>busyThreads\<close> moves
  into its slot (and gets its index), the worker's \<open>busyIndex\<close> becomes -1, the worker
  is appended to \<open>idleThreads\<close>, and the service's running count goes down by one.
\<close>

theorem poll_scan:
  assumes "i < length (busyThreads s)" and "w = busyThreads s ! i"
    and "w < length (workers s)" and "busyIndex (workers s ! w) = int i"
    and "rpc (workers s ! w) \<noteq> WORKER_EXIT"
  shows
    "poll s =
       foldl (\<lambda>acc j. case acc of Inl e \<Rightarrow> Inl e | Inr s1 \<Rightarrow> pollBody j s1) (Inr s)
         (rev [0..<length (busyThreads s)]) \<and>
     (state (workers s ! w) = WORKING \<longrightarrow> pollBody i s = Inr s) \<and>
     (state (workers s ! w) = POSTPROCESSING \<longrightarrow>
        (\<exists>s'. pollBody i s = Inr s' \<and>
           trace s' = trace s @ [EvFenceEnter] @
             (case rpc (workers s ! w) of Ptr r \<Rightarrow> [EvSendReply (rpcId r)] | _ \<Rightarrow> []) \<and>
           workers s' = (workers s)[w := (workers s ! w)\<lparr>rpc := NULL\<rparr>] \<and>
           busyThreads s' = busyThreads s \<and> idleThreads s' = idleThreads s \<and>
           services s' = services s)) \<and>
     (state (workers s ! w) \<noteq> WORKING \<and> state (workers s ! w) \<noteq> POSTPROCESSING \<and>
      serviceInfo (workers s ! w) = Some t \<and> t < length (services s) \<and>
      services s ! t = Some info \<and> waitingRpcs info \<noteq> [] \<longrightarrow>
        (\<exists>s'. pollBody i s = Inr s' \<and>
           trace s' = trace s @ [EvFenceEnter] @
             (case rpc (workers s ! w) of Ptr r \<Rightarrow> [EvSendReply (rpcId r)] | _ \<Rightarrow> []) @
             [EvStoreRpc w (Ptr (hd (waitingRpcs info))), EvFenceLeave,
              EvExchange w (state (workers s ! w)) WORKING] @
             (if state (workers s ! w) = SLEEPING then [EvFutexWake w 1] else []) \<and>
           workers s' = (workers s)[w := (workers s ! w)\<lparr>rpc := Ptr (hd (waitingRpcs info)),
              state := WORKING\<rparr>] \<and>
           services s' = (services s)[t := Some (info\<lparr>waitingRpcs := tl (waitingRpcs info)\<rparr>)] \<and>
           busyThreads s' = busyThreads s \<and> idleThreads s' = idleThreads s)) \<and>
     (state (workers s ! w) \<noteq> WORKING \<and> state (workers s ! w) \<noteq> POSTPROCESSING \<and>
      serviceInfo (workers s ! w) = Some t \<and> t < length (services s) \<and>
      services s ! t = Some info \<and> waitingRpcs info = [] \<longrightarrow>
        (\<exists>s'. pollBody i s = Inr s' \<and>
           trace s' = trace s @ [EvFenceEnter] @
             (case rpc (workers s ! w) of Ptr r \<Rightarrow> [EvSendReply (rpcId r)] | _ \<Rightarrow> []) \<and>
           busyThreads s' = butlast ((busyThreads s)[i := last (busyThreads s)]) \<and>
           idleThreads s' = idleThreads s @ [w] \<and>
           services s' =
             (services s)[t := Some (info\<lparr>requestsRunning := requestsRunning info - 1\<rparr>)] \<and>
           length (workers s') = length (workers s) \<and>
           (\<forall>v<length (workers s). workers s' ! v =
              (if v = w then (workers s ! w)\<lparr>rpc := NULL, busyIndex := - 1\<rparr>
               else if v = last (busyThreads s) then (workers s ! v)\<lparr>busyIndex := int i\<rparr>
               else workers s ! v))))"
proof -
  let ?st = "state (workers s ! w)"
  let ?reply = "case rpc (workers s ! w) of Ptr r \<Rightarrow> [EvSendReply (rpcId r)] | _ \<Rightarrow> []"
  from pollBody_unfold [OF assms] obtain s1 where
    f: "services s1 = services s" "busyThreads s1 = busyThreads s"
      "idleThreads s1 = idleThreads s" "testRpcs s1 = testRpcs s"
      "serviceCount s1 = serviceCount s"
      "workers s1 = (workers s)[w := (workers s ! w)\<lparr>rpc := NULL\<rparr>]"
      "trace s1 = trace s @ [EvFenceEnter] @ ?reply"
    and body: "pollBody i s =
      (if ?st = WORKING then Inr s
       else if ?st = POSTPROCESSING then Inr s1
       else (case serviceInfo (workers s ! w) of
               None \<Rightarrow> Inl UndefinedBehaviour
             | Some t \<Rightarrow>
                 if length (services s) \<le> t then Inl UndefinedBehaviour
                 else (case services s ! t of
                         None \<Rightarrow> Inl UndefinedBehaviour
                       | Some info \<Rightarrow>
                           if waitingRpcs info \<noteq> [] then startNext w t info s1
                           else Inr (retire w t s1))))"
    by blast
  have order: "poll s =
       foldl (\<lambda>acc j. case acc of Inl e \<Rightarrow> Inl e | Inr s1 \<Rightarrow> pollBody j s1) (Inr s)
         (rev [0..<length (busyThreads s)])"
    unfolding poll_def by (rule pollFrom_foldl)
  have working: "?st = WORKING \<longrightarrow> pollBody i s = Inr s"
    using body by simp
  have post: "?st = POSTPROCESSING \<longrightarrow>
        (\<exists>s'. pollBody i s = Inr s' \<and> trace s' = trace s @ [EvFenceEnter] @ ?reply \<and>
           workers s' = (workers s)[w := (workers s ! w)\<lparr>rpc := NULL\<rparr>] \<and>
           busyThreads s' = busyThreads s \<and> idleThreads s' = idleThreads s \<and>
           services s' = services s)"
    using body f by auto
  have wv1: "w < length (workers s1)" "rpc (workers s1 ! w) = NULL"
    and st1: "state (workers s1 ! w) = ?st" and bi1: "busyIndex (workers s1 ! w) = int i"
    using assms(3,4) by (simp_all add: f(6))
  have "next": "?st \<noteq> WORKING \<and> ?st \<noteq> POSTPROCESSING \<and>
      serviceInfo (workers s ! w) = Some t \<and> t < length (services s) \<and>
      services s ! t = Some info \<and> waitingRpcs info \<noteq> [] \<longrightarrow>
        (\<exists>s'. pollBody i s = Inr s' \<and>
           trace s' = trace s @ [EvFenceEnter] @ ?reply @
             [EvStoreRpc w (Ptr (hd (waitingRpcs info))), EvFenceLeave,
              EvExchange w ?st WORKING] @
             (if ?st = SLEEPING then [EvFutexWake w 1] else []) \<and>
           workers s' = (workers s)[w := (workers s ! w)\<lparr>rpc := Ptr (hd (waitingRpcs info)),
              state := WORKING\<rparr>] \<and>
           services s' = (services s)[t := Some (info\<lparr>waitingRpcs := tl (waitingRpcs info)\<rparr>)] \<and>
           busyThreads s' = busyThreads s \<and> idleThreads s' = idleThreads s)"
  proof (intro impI, elim conjE)
    assume a: "?st \<noteq> WORKING" "?st \<noteq> POSTPROCESSING" "serviceInfo (workers s ! w) = Some t"
      "t < length (services s)" "services s ! t = Some info" "waitingRpcs info \<noteq> []"
    with body have "pollBody i s = startNext w t info s1" by simp
    with startNext_eq [OF wv1, of t info] a(5) assms(3) show
      "\<exists>s'. pollBody i s = Inr s' \<and>
           trace s' = trace s @ [EvFenceEnter] @ ?reply @
             [EvStoreRpc w (Ptr (hd (waitingRpcs info))), EvFenceLeave,
              EvExchange w ?st WORKING] @
             (if ?st = SLEEPING then [EvFutexWake w 1] else []) \<and>
           workers s' = (workers s)[w := (workers s ! w)\<lparr>rpc := Ptr (hd (waitingRpcs info)),
              state := WORKING\<rparr>] \<and>
           services s' = (services s)[t := Some (info\<lparr>waitingRpcs := tl (waitingRpcs info)\<rparr>)] \<and>
           busyThreads s' = busyThreads s \<and> idleThreads s' = idleThreads s"
      by (simp add: f st1)
  qed
  have retired: "?st \<noteq> WORKING \<and> ?st \<noteq> POSTPROCESSING \<and>
      serviceInfo (workers s ! w) = Some t \<and> t < length (services s) \<and>
      services s ! t = Some info \<and> waitingRpcs info = [] \<longrightarrow>
        (\<exists>s'. pollBody i s = Inr s' \<and>
           trace s' = trace s @ [EvFenceEnter] @ ?reply \<and>
           busyThreads s' = butlast ((busyThreads s)[i := last (busyThreads s)]) \<and>
           idleThreads s' = idleThreads s @ [w] \<and>
           services s' =
             (services s)[t := Some (info\<lparr>requestsRunning := requestsRunning info - 1\<rparr>)] \<and>
           length (workers s') = length (workers s) \<and>
           (\<forall>v<length (workers s). workers s' ! v =
              (if v = w then (workers s ! w)\<lparr>rpc := NULL, busyIndex := - 1\<rparr>
               else if v = last (busyThreads s) then (workers s ! v)\<lparr>busyIndex := int i\<rparr>
               else workers s ! v)))"
  proof (intro impI, elim conjE)
    assume a: "?st \<noteq> WORKING" "?st \<noteq> POSTPROCESSING" "serviceInfo (workers s ! w) = Some t"
      "t < length (services s)" "services s ! t = Some info" "waitingRpcs info = []"
    with body have b: "pollBody i s = Inr (retire w t s1)" by simp
    have i1: "i < length (busyThreads s1)" "w = busyThreads s1 ! i"
      using assms(1,2) by (simp_all add: f(2))
    note r = retire_fields [OF i1 bi1, of t]
    have "workers (retire w t s1) ! v =
              (if v = w then (workers s ! w)\<lparr>rpc := NULL, busyIndex := - 1\<rparr>
               else if v = last (busyThreads s) then (workers s ! v)\<lparr>busyIndex := int i\<rparr>
               else workers s ! v)" if "v < length (workers s)" for v
      using that assms(3) by (simp add: r(8) f(2,6) nth_update_total)
    with b a(5) show
      "\<exists>s'. pollBody i s = Inr s' \<and>
           trace s' = trace s @ [EvFenceEnter] @ ?reply \<and>
           busyThreads s' = butlast ((busyThreads s)[i := last (busyThreads s)]) \<and>
           idleThreads s' = idleThreads s @ [w] \<and>
           services s' =
             (services s)[t := Some (info\<lparr>requestsRunning := requestsRunning info - 1\<rparr>)] \<and>
           length (workers s') = length (workers s) \<and>
           (\<forall>v<length (workers s). workers s' ! v =
              (if v = w then (workers s ! w)\<lparr>rpc := NULL, busyIndex := - 1\<rparr>
               else if v = last (busyThreads s) then (workers s ! v)\<lparr>busyIndex := int i\<rparr>
               else workers s ! v))"
      by (simp add: r(1-7) f)
  qed
  from order working post "next" retired show ?thesis by blast
qed

theorem poll_scan_witness:
  "(0::nat) < length (busyThreads demoBusy) \<and> (0::nat) = busyThreads demoBusy ! 0 \<and>
   (0::nat) < length (workers demoBusy) \<and> busyIndex (workers demoBusy ! 0) = int 0 \<and>
   rpc (workers demoBusy ! 0) \<noteq> WORKER_EXIT \<and>
   (\<exists>s'. pollBody 0 demoBusy = Inr s' \<and>
      trace s' = trace demoBusy @ [EvFenceEnter, EvSendReply 10,
        EvStoreRpc 0 (Ptr (demoRpc 11 8 1)), EvFenceLeave, EvExchange 0 POLLING WORKING] \<and>
      busyThreads s' = [0] \<and> idleThreads s' = []) \<and>
   (\<exists>s'. pollBody 0 demoTwo = Inr s' \<and>
      trace s' = [EvFenceEnter, EvSendReply 20] \<and>
      busyThreads s' = [1] \<and> idleThreads s' = [0] \<and>
      workers s' ! 0 = \<lparr>serviceInfo = Some 1, rpc = NULL, busyIndex = - 1,
         state = POLLING, exited = False\<rparr> \<and>
      workers s' ! 1 = \<lparr>serviceInfo = Some 1, rpc = Ptr (demoRpc 21 8 1), busyIndex = 0,
         state = WORKING, exited = False\<rparr>) \<and>
   pollBody 1 demoTwo = Inr demoTwo"
proof -
  have k: "(1::nat) < length (busyThreads demoTwo)" "(1::nat) = busyThreads demoTwo ! 1"
    "(1::nat) < length (workers demoTwo)" "busyIndex (workers demoTwo ! 1) = int 1"
    "rpc (workers demoTwo ! 1) \<noteq> WORKER_EXIT"
    by (simp_all add: demoTwo_def)
  from poll_scan [OF k]
  have c: "pollBody 1 demoTwo = Inr demoTwo"
    by (simp add: demoTwo_def)
  have h: "(0::nat) < length (busyThreads demoBusy)" "(0::nat) = busyThreads demoBusy ! 0"
    "(0::nat) < length (workers demoBusy)" "busyIndex (workers demoBusy ! 0) = int 0"
    "rpc (workers demoBusy ! 0) \<noteq> WORKER_EXIT"
    by (simp_all add: demoBusy_def)
  have g: "(0::nat) < length (busyThreads demoTwo)" "(0::nat) = busyThreads demoTwo ! 0"
    "(0::nat) < length (workers demoTwo)" "busyIndex (workers demoTwo ! 0) = int 0"
    "rpc (workers demoTwo ! 0) \<noteq> WORKER_EXIT"
    by (simp_all add: demoTwo_def)
  from poll_scan [OF h, of 1 "\<lparr>serviceHandler = demoService 1, maxThreads = 1,
         requestsRunning = 1, waitingRpcs = [demoRpc 11 8 1]\<rparr>"]
  have a: "\<exists>s'. pollBody 0 demoBusy = Inr s' \<and>
      trace s' = trace demoBusy @ [EvFenceEnter, EvSendReply 10,
        EvStoreRpc 0 (Ptr (demoRpc 11 8 1)), EvFenceLeave, EvExchange 0 POLLING WORKING] \<and>
      busyThreads s' = [0] \<and> idleThreads s' = []"
    by (auto simp: demoBusy_def)
  from poll_scan [OF g, of 1 "\<lparr>serviceHandler = demoService 2, maxThreads = 2,
         requestsRunning = 2, waitingRpcs = []\<rparr>"]
  have b: "\<exists>s'. pollBody 0 demoTwo = Inr s' \<and>
      trace s' = [EvFenceEnter, EvSendReply 20] \<and>
      busyThreads s' = [1] \<and> idleThreads s' = [0] \<and>
      workers s' ! 0 = \<lparr>serviceInfo = Some 1, rpc = NULL, busyIndex = - 1,
         state = POLLING, exited = False\<rparr> \<and>
      workers s' ! 1 = \<lparr>serviceInfo = Some 1, rpc = Ptr (demoRpc 21 8 1), busyIndex = 0,
         state = WORKING, exited = False\<rparr>"
    by (auto simp: demoTwo_def)
  from h a b c show ?thesis by blast
qed

text \<open>
  C4. In every state reached from start-up (a new dispatcher and registrations whose caps
  are not negative) by calls of \<open>handleRpc\<close> and \<open>poll\<close>, with the worker threads
  moving in between: for every registered service the running count is between 0 and the
  cap, equals the number of workers in \<open>busyThreads\<close> bound to the service, and equals the
  cap whenever a request is waiting.
\<close>

theorem requestsRunning_invariant:
  assumes "addServices M (ServiceManager_new M) regs = Inr s0"
    and "\<forall>(svc, t)\<in>set regs. 0 \<le> threadLimit svc"
    and "run testing M s0 ops = Inr s"
    and "t \<le> M" and "services s ! t = Some info"
  shows "0 \<le> requestsRunning info \<and> requestsRunning info \<le> maxThreads info \<and>
         requestsRunning info =
           int (length (filter (\<lambda>w. serviceInfo (workers s ! w) = Some t) (busyThreads s))) \<and>
         (waitingRpcs info \<noteq> [] \<longrightarrow> requestsRunning info = maxThreads info)"
proof -
  from assms(1-3) have "mgr_inv M s" by (rule reachable_inv)
  then have "countOk M s" by (simp add: mgr_inv_def)
  from countOkD [OF this assms(4,5)] show ?thesis by (simp add: boundTo_def)
qed

theorem requestsRunning_invariant_witness:
  "addServices 2 (ServiceManager_new 2) [(demoService 1, 1)] = Inr demoStart \<and>
   0 \<le> threadLimit (demoService 1) \<and>
   run True 2 demoStart demoOps = Inr demoMid \<and>
   services demoMid ! 1 = Some \<lparr>serviceHandler = demoService 1, maxThreads = 1,
         requestsRunning = 1, waitingRpcs = []\<rparr> \<and>
   int (length (filter (\<lambda>w. serviceInfo (workers demoMid ! w) = Some 1) (busyThreads demoMid))) = 1"
proof -
  have caps: "\<forall>(svc, t)\<in>set [(demoService 1, 1::nat)]. 0 \<le> threadLimit svc"
    by (simp add: demoService_def)
  have slot: "services demoMid ! 1 = Some \<lparr>serviceHandler = demoService 1, maxThreads = 1,
         requestsRunning = 1, waitingRpcs = []\<rparr>"
    by (simp add: demoMid_def)
  have "(1::nat) \<le> 2" by simp
  from requestsRunning_invariant [OF demo_startup caps demo_run this slot]
  show ?thesis using demo_startup demo_run slot caps by simp
qed

text \<open>
  C5. A handoff stores the request pointer in the worker's slot, then issues the release
  fence (\<^verbatim>\<open>Fence::leave\<close>), then exchanges the state cell to \<open>WORKING\<close> and reads
  the value it had; it issues one futex wake, for one waiter, exactly when that value was
  \<open>SLEEPING\<close>. The handoff asserts that the slot was empty.
\<close>

theorem handoff_protocol:
  assumes "w < length (workers s)" and "rpc (workers s ! w) = NULL"
  shows "\<exists>s'. handoff w newRpc s = Inr s' \<and>
           trace s' = trace s @
             [EvStoreRpc w newRpc, EvFenceLeave, EvExchange w (state (workers s ! w)) WORKING] @
             (if state (workers s ! w) = SLEEPING then [EvFutexWake w 1] else []) \<and>
           rpc (workers s' ! w) = newRpc \<and> state (workers s' ! w) = WORKING \<and>
           (\<forall>v. v \<noteq> w \<longrightarrow> workers s' ! v = workers s ! v) \<and>
           length (workers s') = length (workers s) \<and>
           services s' = services s \<and> busyThreads s' = busyThreads s \<and>
           idleThreads s' = idleThreads s"
  using assms by (simp add: handoff_eq)

theorem handoff_protocol_witness:
  "0 < length (workers sleeper) \<and> rpc (workers sleeper ! 0) = NULL \<and>
   (\<exists>s'. handoff 0 (Ptr (demoRpc 5 8 1)) sleeper = Inr s' \<and>
      trace s' = [EvStoreRpc 0 (Ptr (demoRpc 5 8 1)), EvFenceLeave, EvExchange 0 SLEEPING WORKING, EvFutexWake 0 1])"
  using handoff_protocol [of 0 sleeper "Ptr (demoRpc 5 8 1)"]
  by (auto simp: sleeper_def Worker_new_def ServiceManager_new_def)

text \<open>
  C6. For a registered service, the requests handed to workers so far, in the order of the
  handoffs, followed by the requests still waiting in its queue, are exactly the requests
  submitted for that service, in the order of submission: handoffs follow the order of
  admission and the queue is consumed from the front. With a cap of 1 at most one worker
  is bound to the service at a time, so the requests are handled in that order.
\<close>

theorem handoff_in_admission_order:
  assumes "addServices M (ServiceManager_new M) regs = Inr s0"
    and "\<forall>(svc, t)\<in>set regs. 0 \<le> threadLimit svc"
    and "run testing M s0 ops = Inr s"
    and "t \<le> M" and "services s ! t = Some info"
  shows "forService t (handedOff (trace s)) @ waitingRpcs info = forService t (submitted ops) \<and>
         (maxThreads info = 1 \<longrightarrow>
            length (filter (\<lambda>w. serviceInfo (workers s ! w) = Some t) (busyThreads s)) \<le> 1)"
proof -
  from assms(1,2) have i0: "mgr_inv M s0" by (rule startup_inv)
  then have l0: "length (services s0) = Suc M" by (simp add: mgr_inv_def)
  from i0 assms(3) have inv: "mgr_inv M s" by (rule run_Inr_inv)
  have reg0: "services s0 ! t \<noteq> None"
  proof
    assume n: "services s0 ! t = None"
    have "registered s = registered s0 \<and> services s ! t = None"
      using assms(3) i0 n
    proof (induction ops arbitrary: s0)
      case Nil
      then show ?case by simp
    next
      case (Cons x xs)
      from Cons.prems(1) obtain s1 where s1: "step testing M s0 x = Inr s1"
        "run testing M s1 xs = Inr s"
        by (auto split: sum.splits)
      from Cons.prems(2) s1(1) have i1: "mgr_inv M s1" by (rule step_Inr_inv)
      have r: "registered s1 = registered s0"
      proof (cases x)
        case (HandleRpc r)
        with s1(1) have h: "handleRpc testing M s0 r = Inr s1" by simp
        show ?thesis
        proof (cases "getStart r = None \<or> M < unat (service (requestHeader r)) \<or>
             services s0 ! unat (service (requestHeader r)) = None")
          case True
          from handleRpc_epoch [OF h] True
          have "handleRpc testing M s0 r = Inr (rejectRpc testing s0 r (getStart r))"
            by (rule handleRpc_invalid)
          with h show ?thesis
            by (auto simp: rejectRpc_def registered_def split: option.split)
        next
          case False
          then have "services s0 ! unat (service (requestHeader r)) \<noteq> None"
            "unat (service (requestHeader r)) \<le> M" by auto
          from handleRpc_served [OF Cons.prems(2) this(2,1) h] show ?thesis by simp
        qed
      next
        case Poll
        with s1(1) poll_served(2) [OF Cons.prems(2)] show ?thesis by simp
      next
        case (WorkerDoes w a)
        with s1(1) show ?thesis by (auto simp: registered_def split: if_splits)
      qed
      from Cons.prems(2) have "length (services s0) = Suc M" by (simp add: mgr_inv_def)
      from registered_nth [OF r this assms(4)] Cons.prems(3)
      have "services s1 ! t = None" by simp
      from Cons.IH [OF s1(2) i1 this] r show ?case by simp
    qed
    with assms(5) show False by simp
  qed
  from run_served [OF i0 assms(4) reg0 assms(3)] startup_served [OF assms(1,4,2)]
  have "served t s = forService t (submitted ops)" by simp
  then have fifo: "forService t (handedOff (trace s)) @ waitingRpcs info =
      forService t (submitted ops)"
    using assms(5) by (simp add: served_def)
  from inv have "countOk M s" by (simp add: mgr_inv_def)
  from countOkD(1,2) [OF this assms(4,5)]
  have "maxThreads info = 1 \<longrightarrow>
      length (filter (\<lambda>w. serviceInfo (workers s ! w) = Some t) (busyThreads s)) \<le> 1"
    by (simp add: boundTo_def)
  with fifo show ?thesis by simp
qed

theorem handoff_in_admission_order_witness:
  "addServices 2 (ServiceManager_new 2) [(demoService 1, 1)] = Inr demoStart \<and>
   0 \<le> threadLimit (demoService 1) \<and>
   run True 2 demoStart demoOps = Inr demoMid \<and>
   services demoMid ! 1 = Some \<lparr>serviceHandler = demoService 1, maxThreads = 1,
         requestsRunning = 1, waitingRpcs = []\<rparr> \<and>
   forService 1 (handedOff (trace demoMid)) = [demoRpc 10 8 1, demoRpc 11 8 1] \<and>
   forService 1 (submitted demoOps) = [demoRpc 10 8 1, demoRpc 11 8 1]"
proof -
  have caps: "\<forall>(svc, t)\<in>set [(demoService 1, 1::nat)]. 0 \<le> threadLimit svc"
    by (simp add: demoService_def)
  have slot: "services demoMid ! 1 = Some \<lparr>serviceHandler = demoService 1, maxThreads = 1,
         requestsRunning = 1, waitingRpcs = []\<rparr>"
    by (simp add: demoMid_def)
  have sub: "forService 1 (submitted demoOps) = [demoRpc 10 8 1, demoRpc 11 8 1]"
    by (simp add: demoOps_def forService_def)
  have "(1::nat) \<le> 2" by simp
  note h = handoff_in_admission_order [OF demo_startup caps demo_run this slot, THEN conjunct1]
  have "forService 1 (handedOff (trace demoMid)) = forService 1 (submitted demoOps)"
    using h by (simp only: ServiceInfo.simps append_Nil2)
  then have "forService 1 (handedOff (trace demoMid)) = [demoRpc 10 8 1, demoRpc 11 8 1]"
    by (simp only: sub)
  with demo_startup demo_run slot sub caps show ?thesis by simp
qed



text \<open>
  C8, within the array. For a tag in \<open>0..MAX_SERVICE\<close>, \<open>addService\<close> fails
  its assertion when the slot is occupied; otherwise the service is registered in that
  slot, with nothing running and nothing waiting, and the service count goes up by one.
  The source makes no range check on the tag.
\<close>

theorem addService_occupied_or_registered:
  assumes "type \<le> M" and "length (services s) = Suc M"
  shows "(services s ! type \<noteq> None \<longrightarrow> addService M s svc type = Inl AssertionFailed) \<and>
         (services s ! type = None \<longrightarrow>
            (\<exists>s'. addService M s svc type = Inr s' \<and>
               services s' ! type =
                 Some \<lparr>serviceHandler = svc, maxThreads = threadLimit svc,
                        requestsRunning = 0, waitingRpcs = []\<rparr> \<and>
               (\<forall>u. u \<noteq> type \<longrightarrow> services s' ! u = services s ! u) \<and>
               length (services s') = Suc M \<and>
               serviceCount s' = serviceCount s + 1 \<and>
               busyThreads s' = busyThreads s \<and> idleThreads s' = idleThreads s \<and>
               workers s' = workers s \<and> testRpcs s' = testRpcs s \<and> trace s' = trace s))"
  using assms by (simp add: addService_eq ServiceInfo_construct_def)

theorem addService_occupied_or_registered_witness:
  "(1::nat) \<le> 2 \<and> length (services (ServiceManager_new 2)) = Suc 2 \<and>
   services (ServiceManager_new 2) ! 1 = None \<and>
   (\<exists>s'. addService 2 (ServiceManager_new 2) (demoService 1) 1 = Inr s' \<and>
      services s' ! 1 = Some \<lparr>serviceHandler = demoService 1, maxThreads = 1,
                                requestsRunning = 0, waitingRpcs = []\<rparr> \<and>
      serviceCount s' = 1 \<and>
      addService 2 s' (demoService 3) 1 = Inl AssertionFailed)"
proof -
  have a: "(1::nat) \<le> 2" and b: "length (services (ServiceManager_new 2)) = Suc 2"
    and c: "services (ServiceManager_new 2) ! 1 = None"
    by (simp_all add: ServiceManager_new_def)
  from addService_occupied_or_registered [OF a b, of "demoService 1"] c
  obtain s' where s': "addService 2 (ServiceManager_new 2) (demoService 1) 1 = Inr s'"
      "services s' ! 1 = Some \<lparr>serviceHandler = demoService 1,
          maxThreads = threadLimit (demoService 1), requestsRunning = 0, waitingRpcs = []\<rparr>"
      "length (services s') = Suc 2" "serviceCount s' = serviceCount (ServiceManager_new 2) + 1"
    by auto
  from addService_occupied_or_registered [OF a s'(3), of "demoService 3"] s'(2)
  have "addService 2 s' (demoService 3) 1 = Inl AssertionFailed" by simp
  with a b c s' show ?thesis
    by (auto simp: demoService_def ServiceManager_new_def)
qed

text \<open>
  C8, for a tag above \<open>MAX_SERVICE\<close>: the call is not rejected. No check stands
  before the access; the source indexes the array outside its bounds.
\<close>

theorem addService_out_of_range_counterexample:
  "(2::nat) < 3 \<and>
   addService 2 (ServiceManager_new 2) (demoService 1) 3 \<noteq> Inl AssertionFailed \<and>
   addService 2 (ServiceManager_new 2) (demoService 1) 3 = Inl UndefinedBehaviour"
  by (simp add: addService_def)

text \<open>
  C9. In every state reached from start-up by calls of \<open>handleRpc\<close> and \<open>poll\<close>,
  with the worker threads moving in between, a worker's \<open>busyIndex\<close> is at least 0
  exactly when the worker is in \<open>busyThreads\<close>; it then is the one index at which the
  worker stands there. Every other worker, and so every worker in \<open>idleThreads\<close>, has
  \<open>busyIndex = -1\<close>.
\<close>

theorem busyIndex_invariant:
  assumes "addServices M (ServiceManager_new M) regs = Inr s0"
    and "\<forall>(svc, t)\<in>set regs. 0 \<le> threadLimit svc"
    and "run testing M s0 ops = Inr s"
    and "w < length (workers s)"
  shows "(0 \<le> busyIndex (workers s ! w) \<longleftrightarrow> w \<in> set (busyThreads s)) \<and>
         (w \<in> set (busyThreads s) \<longrightarrow>
            nat (busyIndex (workers s ! w)) < length (busyThreads s) \<and>
            busyThreads s ! nat (busyIndex (workers s ! w)) = w \<and>
            (\<forall>i<length (busyThreads s). busyThreads s ! i = w \<longrightarrow>
               int i = busyIndex (workers s ! w))) \<and>
         (w \<notin> set (busyThreads s) \<longrightarrow> busyIndex (workers s ! w) = - 1) \<and>
         (w \<in> set (idleThreads s) \<longrightarrow> busyIndex (workers s ! w) = - 1) \<and>
         (\<forall>v\<in>set (busyThreads s) \<union> set (idleThreads s). v < length (workers s))"
proof -
  from assms(1-3) have "mgr_inv M s" by (rule reachable_inv)
  then have ix: "indexOk s" by (simp add: mgr_inv_def)
  have out: "busyIndex (workers s ! w) = - 1" if "w \<notin> set (busyThreads s)"
    using ix assms(4) that by (simp add: indexOk_def)
  have inn: "nat (busyIndex (workers s ! w)) < length (busyThreads s) \<and>
            busyThreads s ! nat (busyIndex (workers s ! w)) = w \<and>
            0 \<le> busyIndex (workers s ! w)" if "w \<in> set (busyThreads s)"
    using indexOk_at [OF ix that] by (metis nat_int of_nat_0_le_iff)
  have uniq: "int i = busyIndex (workers s ! w)"
    if "i < length (busyThreads s)" "busyThreads s ! i = w" for i
    using ix that by (auto simp: indexOk_def)
  have idle: "w \<notin> set (busyThreads s)" if "w \<in> set (idleThreads s)"
    using ix that by (auto simp: indexOk_def)
  have valid: "v < length (workers s)" if "v \<in> set (busyThreads s) \<union> set (idleThreads s)" for v
    using ix that indexOk_busy_valid [OF ix] by (auto simp: indexOk_def)
  have iff: "0 \<le> busyIndex (workers s ! w) \<longleftrightarrow> w \<in> set (busyThreads s)"
  proof (cases "w \<in> set (busyThreads s)")
    case True
    with inn show ?thesis by simp
  next
    case False
    with out show ?thesis by simp
  qed
  from iff out inn uniq idle valid show ?thesis by blast
qed

theorem busyIndex_invariant_witness:
  "addServices 2 (ServiceManager_new 2) [(demoService 1, 1)] = Inr demoStart \<and>
   0 \<le> threadLimit (demoService 1) \<and>
   run True 2 demoStart demoOps = Inr demoMid \<and>
   (0::nat) < length (workers demoMid) \<and>
   0 \<in> set (busyThreads demoMid) \<and>
   busyIndex (workers demoMid ! 0) = 0 \<and>
   busyThreads demoMid ! nat (busyIndex (workers demoMid ! 0)) = 0"
proof -
  have caps: "\<forall>(svc, t)\<in>set [(demoService 1, 1::nat)]. 0 \<le> threadLimit svc"
    by (simp add: demoService_def)
  have w: "(0::nat) < length (workers demoMid)" by (simp add: demoMid_def)
  have b: "0 \<in> set (busyThreads demoMid)" by (simp add: demoMid_def)
  from busyIndex_invariant [OF demo_startup caps demo_run w] b
  have "busyThreads demoMid ! nat (busyIndex (workers demoMid ! 0)) = 0" by blast
  then show ?thesis using demo_startup demo_run w b caps by (simp add: demoMid_def)
qed



end
